theory Spec2Isabelle
  imports Complex_Main
begin

section \<open>Numbers, errors and list access\<close>

text \<open>
  A pixel or a kernel weight is a Python number: an \<open>int\<close> (unbounded) or a \<open>float\<close>.
  A float is represented by the real number it holds, so the values are the finite ones:
  infinities and NaN are not values here.  The tag is kept, because \<open>round\<close> turns a
  float into an int and the filters' outputs are required to be ints.

  The operations \<open>py_add\<close>, \<open>py_sub\<close> and \<open>py_mul\<close> below compute exactly: they neither
  round to double precision nor raise.  The filters are translated with them.  What is
  proved about the values that \<open>correlate\<close> computes does not rest on this idealisation:
  it is proved of \<open>correlate_with\<close>, a translation of \<open>correlate\<close> that takes \<open>*\<close> and
  \<open>+=\<close> as parameters that may raise, and so holds for every arithmetic of this type,
  that of double precision included.
\<close>

datatype pynum = PInt int | PFloat real

fun to_real :: "pynum \<Rightarrow> real" where
  "to_real (PInt i) = of_int i"
| "to_real (PFloat x) = x"

text \<open>\<open>a + b\<close>, \<open>a - b\<close>, \<open>a * b\<close>: int with int stays int, anything else is a float.\<close>

fun py_add :: "pynum \<Rightarrow> pynum \<Rightarrow> pynum" where
  "py_add (PInt a) (PInt b) = PInt (a + b)"
| "py_add a b = PFloat (to_real a + to_real b)"

fun py_sub :: "pynum \<Rightarrow> pynum \<Rightarrow> pynum" where
  "py_sub (PInt a) (PInt b) = PInt (a - b)"
| "py_sub a b = PFloat (to_real a - to_real b)"

fun py_mul :: "pynum \<Rightarrow> pynum \<Rightarrow> pynum" where
  "py_mul (PInt a) (PInt b) = PInt (a * b)"
| "py_mul a b = PFloat (to_real a * to_real b)"

text \<open>\<open>x ** 2\<close> and \<open>x ** (1/2)\<close>; the latter is only applied to a sum of two squares.\<close>

fun py_pow2 :: "pynum \<Rightarrow> pynum" where
  "py_pow2 (PInt a) = PInt (a * a)"
| "py_pow2 (PFloat x) = PFloat (x * x)"

definition py_pow_half :: "pynum \<Rightarrow> pynum" where
  "py_pow_half v = PFloat (sqrt (to_real v))"

text \<open>
  Python's \<open>round\<close>: the identity on an int; on a float the nearest integer, a tie
  going to the even neighbour.
\<close>

definition round_half_even :: "real \<Rightarrow> int" where
  "round_half_even x =
     (let f = \<lfloor>x\<rfloor>; d = x - of_int f
      in if d < 1 / 2 then f
         else if 1 / 2 < d then f + 1
         else if even f then f else f + 1)"

fun py_round :: "pynum \<Rightarrow> int" where
  "py_round (PInt i) = i"
| "py_round (PFloat x) = round_half_even x"

datatype error = IndexError | ZeroDivisionError | OverflowError

type_synonym 'a result = "error + 'a"

text \<open>
  An arithmetic operation that may raise.  Python converts an int to a float when an int
  meets a float in \<open>+\<close> or \<open>*\<close>, and raises \<open>OverflowError\<close> when the int is too large:
  when it rounds to \<open>2 ** 1024\<close> or beyond, the largest float being
  \<open>2 ** 1024 - 2 ** 971\<close> and the rounding to nearest, ties to even.  \<open>add_checked\<close> and
  \<open>mul_checked\<close> are \<open>py_add\<close> and \<open>py_mul\<close> with this error; they still do not round.
\<close>

type_synonym arith = "pynum \<Rightarrow> pynum \<Rightarrow> pynum result"

definition float_of_int :: "int \<Rightarrow> real result" where
  "float_of_int i = (if \<bar>i\<bar> < 2 ^ 1024 - 2 ^ 970 then Inr (of_int i) else Inl OverflowError)"

fun as_float :: "pynum \<Rightarrow> real result" where
  "as_float (PInt i) = float_of_int i"
| "as_float (PFloat x) = Inr x"

fun add_checked :: arith where
  "add_checked (PInt a) (PInt b) = Inr (PInt (a + b))"
| "add_checked a b =
     (case as_float a of
        Inl e \<Rightarrow> Inl e
      | Inr x \<Rightarrow> (case as_float b of Inl e \<Rightarrow> Inl e | Inr y \<Rightarrow> Inr (PFloat (x + y))))"

fun mul_checked :: arith where
  "mul_checked (PInt a) (PInt b) = Inr (PInt (a * b))"
| "mul_checked a b =
     (case as_float a of
        Inl e \<Rightarrow> Inl e
      | Inr x \<Rightarrow> (case as_float b of Inl e \<Rightarrow> Inl e | Inr y \<Rightarrow> Inr (PFloat (x * y))))"

text \<open>\<open>xs[i]\<close> and \<open>xs[i] = v\<close>: a negative index counts from the end, an index out of
  range raises \<open>IndexError\<close>.\<close>

definition py_index :: "'a list \<Rightarrow> int \<Rightarrow> 'a result" where
  "py_index xs i =
     (if 0 \<le> i \<and> i < int (length xs) then Inr (xs ! nat i)
      else if i < 0 \<and> - int (length xs) \<le> i then Inr (xs ! nat (int (length xs) + i))
      else Inl IndexError)"

definition py_store :: "'a list \<Rightarrow> int \<Rightarrow> 'a \<Rightarrow> 'a list result" where
  "py_store xs i v =
     (if 0 \<le> i \<and> i < int (length xs) then Inr (xs[nat i := v])
      else if i < 0 \<and> - int (length xs) \<le> i then Inr (xs[nat (int (length xs) + i) := v])
      else Inl IndexError)"

text \<open>\<open>range(n)\<close>: empty when \<open>n \<le> 0\<close>.\<close>

definition py_range :: "int \<Rightarrow> int list" where
  "py_range n = map int [0..<nat n]"

text \<open>
  \<open>int(len(kernel) ** (1/2))\<close>: the float square root, truncated.  It is modelled by the
  integer square root, with which it agrees for every length a list can have.
\<close>

primrec isqrt :: "nat \<Rightarrow> nat" where
  "isqrt 0 = 0"
| "isqrt (Suc n) = (let r = isqrt n in if (r + 1) * (r + 1) \<le> Suc n then r + 1 else r)"

text \<open>\<open>int(k / 2)\<close>: true division, then truncation towards zero.\<close>

definition py_int_half :: "int \<Rightarrow> int" where
  "py_int_half k = (if 0 \<le> k then k div 2 else - ((- k) div 2))"

section \<open>The store: dictionaries and lists as objects\<close>

text \<open>
  An image is a dictionary with the keys \<open>height\<close>, \<open>width\<close> and \<open>pixels\<close>; the value
  under \<open>pixels\<close> is a reference to a list object.  Dictionaries and lists are mutable and
  may be shared, so both live in a store, addressed by references; \<open>fresh\<close> is the next
  unused reference, and an object is allocated when its reference is below it.
\<close>

type_synonym ref = nat

record image =
  height :: int
  width :: int
  pixels :: ref

record heap =
  dict_objs :: "ref \<Rightarrow> image"
  list_objs :: "ref \<Rightarrow> pynum list"
  fresh :: ref

definition new_list :: "pynum list \<Rightarrow> heap \<Rightarrow> ref \<times> heap" where
  "new_list vs hp =
     (fresh hp, hp\<lparr>list_objs := (list_objs hp)(fresh hp := vs), fresh := Suc (fresh hp)\<rparr>)"

definition new_dict :: "image \<Rightarrow> heap \<Rightarrow> ref \<times> heap" where
  "new_dict d hp =
     (fresh hp, hp\<lparr>dict_objs := (dict_objs hp)(fresh hp := d), fresh := Suc (fresh hp)\<rparr>)"

text \<open>\<open>d["pixels"] = l\<close>\<close>

definition set_pixels_key :: "heap \<Rightarrow> ref \<Rightarrow> ref \<Rightarrow> heap" where
  "set_pixels_key hp d l = hp\<lparr>dict_objs := (dict_objs hp)(d := (dict_objs hp d)\<lparr>pixels := l\<rparr>)\<rparr>"

text \<open>A \<open>for\<close> loop over a sequence: the body updates the state or raises, and an
  exception leaves the loop with the state reached so far.\<close>

fun for_each :: "'i list \<Rightarrow> ('i \<Rightarrow> 's \<Rightarrow> unit result \<times> 's) \<Rightarrow> 's \<Rightarrow> unit result \<times> 's" where
  "for_each [] body s = (Inr (), s)"
| "for_each (i # is) body s =
     (case body i s of
        (Inl e, s') \<Rightarrow> (Inl e, s')
      | (Inr _, s') \<Rightarrow> for_each is body s')"

section \<open>lab.py\<close>

definition in_bound :: "int \<Rightarrow> int \<Rightarrow> int" where
  "in_bound dim' s = (if s \<le> - 1 then 0 else if s \<ge> dim' then dim' - 1 else s)"

definition get_pixel :: "heap \<Rightarrow> ref \<Rightarrow> int \<Rightarrow> int \<Rightarrow> pynum result" where
  "get_pixel hp img x y =
     (let x' = in_bound (height (dict_objs hp img)) x;
          y' = in_bound (width (dict_objs hp img)) y
      in py_index (list_objs hp (pixels (dict_objs hp img)))
           (x' * width (dict_objs hp img) + y'))"

definition set_pixel :: "heap \<Rightarrow> ref \<Rightarrow> pynum \<Rightarrow> heap" where
  "set_pixel hp img c =
     (let l = pixels (dict_objs hp img)
      in hp\<lparr>list_objs := (list_objs hp)(l := list_objs hp l @ [c])\<rparr>)"

definition apply_per_pixel :: "heap \<Rightarrow> ref \<Rightarrow> (pynum \<Rightarrow> pynum) \<Rightarrow> ref result \<times> heap" where
  "apply_per_pixel hp img func =
     (let (l, hp1) = new_list [] hp;
          (result, hp2) = new_dict \<lparr>height = height (dict_objs hp1 img),
                                    width = width (dict_objs hp1 img), pixels = l\<rparr> hp1
      in case for_each (py_range (height (dict_objs hp2 img))) (\<lambda>x hpx.
                for_each (py_range (width (dict_objs hpx img))) (\<lambda>y hpy.
                  case get_pixel hpy img x y of
                    Inl e \<Rightarrow> (Inl e, hpy)
                  | Inr color \<Rightarrow> (Inr (), set_pixel hpy result (func color))) hpx) hp2 of
           (Inl e, hp') \<Rightarrow> (Inl e, hp')
         | (Inr _, hp') \<Rightarrow> (Inr result, hp'))"

definition inverted :: "heap \<Rightarrow> ref \<Rightarrow> ref result \<times> heap" where
  "inverted hp img = apply_per_pixel hp img (\<lambda>c. py_sub (PInt 255) c)"

text \<open>The two inner loops of \<open>correlate\<close>: they only read the store, and accumulate
  \<open>newpixel\<close>.\<close>

definition weigh :: "heap \<Rightarrow> ref \<Rightarrow> pynum list \<Rightarrow> int \<Rightarrow> int \<Rightarrow> int \<Rightarrow> int
    \<Rightarrow> pynum \<Rightarrow> unit result \<times> pynum" where
  "weigh hp img kern kernel_size num_layers x y newpixel0 =
     for_each (py_range kernel_size) (\<lambda>h newpixel_h.
       for_each (py_range kernel_size) (\<lambda>w newpixel.
         case py_index kern (h * kernel_size + w) of
           Inl e \<Rightarrow> (Inl e, newpixel)
         | Inr k \<Rightarrow>
             (case get_pixel hp img (x - num_layers + h) (y - num_layers + w) of
                Inl e \<Rightarrow> (Inl e, newpixel)
              | Inr p \<Rightarrow> (Inr (), py_add newpixel (py_mul k p)))) newpixel_h) newpixel0"

definition correlate :: "heap \<Rightarrow> ref \<Rightarrow> pynum list \<Rightarrow> ref result \<times> heap" where
  "correlate hp img kern =
     (let (l, hp1) = new_list [] hp;
          (result, hp2) = new_dict \<lparr>height = height (dict_objs hp1 img),
                                    width = width (dict_objs hp1 img), pixels = l\<rparr> hp1;
          kernel_size = int (isqrt (length kern));
          num_layers = py_int_half (kernel_size - 1)
      in case for_each (py_range (height (dict_objs hp2 img))) (\<lambda>x hpx.
                for_each (py_range (width (dict_objs hpx img))) (\<lambda>y hpy.
                  case weigh hpy img kern kernel_size num_layers x y (PFloat 0) of
                    (Inl e, _) \<Rightarrow> (Inl e, hpy)
                  | (Inr _, newpixel) \<Rightarrow> (Inr (), set_pixel hpy result newpixel)) hpx) hp2 of
           (Inl e, hp') \<Rightarrow> (Inl e, hp')
         | (Inr _, hp') \<Rightarrow> (Inr result, hp'))"

text \<open>
  \<open>correlate\<close> once more, with the product \<open>kernel[...] * get_pixel(...)\<close> and the update
  \<open>newpixel += ...\<close> as the parameters \<open>mul\<close> and \<open>add\<close>; an error of either ends the
  call, as an exception does.  With \<open>py_mul\<close> and \<open>py_add\<close>, which never raise, it is
  \<open>correlate\<close> above (lemma \<open>correlate_exact\<close>).
\<close>

definition weigh_with :: "arith \<Rightarrow> arith \<Rightarrow> heap \<Rightarrow> ref \<Rightarrow> pynum list \<Rightarrow> int \<Rightarrow> int
    \<Rightarrow> int \<Rightarrow> int \<Rightarrow> pynum \<Rightarrow> unit result \<times> pynum" where
  "weigh_with add mul hp img kern kernel_size num_layers x y newpixel0 =
     for_each (py_range kernel_size) (\<lambda>h newpixel_h.
       for_each (py_range kernel_size) (\<lambda>w newpixel.
         case py_index kern (h * kernel_size + w) of
           Inl e \<Rightarrow> (Inl e, newpixel)
         | Inr k \<Rightarrow>
             (case get_pixel hp img (x - num_layers + h) (y - num_layers + w) of
                Inl e \<Rightarrow> (Inl e, newpixel)
              | Inr p \<Rightarrow>
                  (case mul k p of
                     Inl e \<Rightarrow> (Inl e, newpixel)
                   | Inr v \<Rightarrow>
                       (case add newpixel v of
                          Inl e \<Rightarrow> (Inl e, newpixel)
                        | Inr s \<Rightarrow> (Inr (), s))))) newpixel_h) newpixel0"

definition correlate_with :: "arith \<Rightarrow> arith \<Rightarrow> heap \<Rightarrow> ref \<Rightarrow> pynum list \<Rightarrow> ref result \<times> heap" where
  "correlate_with add mul hp img kern =
     (let (l, hp1) = new_list [] hp;
          (result, hp2) = new_dict \<lparr>height = height (dict_objs hp1 img),
                                    width = width (dict_objs hp1 img), pixels = l\<rparr> hp1;
          kernel_size = int (isqrt (length kern));
          num_layers = py_int_half (kernel_size - 1)
      in case for_each (py_range (height (dict_objs hp2 img))) (\<lambda>x hpx.
                for_each (py_range (width (dict_objs hpx img))) (\<lambda>y hpy.
                  case weigh_with add mul hpy img kern kernel_size num_layers x y (PFloat 0) of
                    (Inl e, _) \<Rightarrow> (Inl e, hpy)
                  | (Inr _, newpixel) \<Rightarrow> (Inr (), set_pixel hpy result newpixel)) hpx) hp2 of
           (Inl e, hp') \<Rightarrow> (Inl e, hp')
         | (Inr _, hp') \<Rightarrow> (Inr result, hp'))"

text \<open>The body of the loop of \<open>round_and_clip_image\<close>: the value stored for \<open>pixel\<close>,
  and the store \<open>image["pixels"][idx] = v\<close>.\<close>

definition clipped :: "pynum \<Rightarrow> pynum" where
  "clipped pixel =
     (if py_round pixel < 0 then PInt 0
      else if py_round pixel > 255 then PInt 255
      else PInt (py_round pixel))"

definition store_pixel :: "heap \<Rightarrow> ref \<Rightarrow> int \<Rightarrow> pynum \<Rightarrow> unit result \<times> heap" where
  "store_pixel hp img idx v =
     (let l = pixels (dict_objs hp img)
      in case py_store (list_objs hp l) idx v of
           Inl e \<Rightarrow> (Inl e, hp)
         | Inr xs \<Rightarrow> (Inr (), hp\<lparr>list_objs := (list_objs hp)(l := xs)\<rparr>))"

text \<open>
  \<open>for idx, pixel in enumerate(image["pixels"])\<close>: the iterator holds the list object
  \<open>it\<close> and reads it at \<open>idx\<close> from the current store, while the body writes to the
  store.
\<close>

function enumerate_pixels :: "ref \<Rightarrow> ref \<Rightarrow> nat \<Rightarrow> heap \<Rightarrow> unit result \<times> heap" where
  "enumerate_pixels img it idx hp =
     (if idx < length (list_objs hp it) then
        (case store_pixel hp img (int idx) (clipped (list_objs hp it ! idx)) of
           (Inl e, hp') \<Rightarrow> (Inl e, hp')
         | (Inr _, hp') \<Rightarrow> enumerate_pixels img it (Suc idx) hp')
      else (Inr (), hp))"
  by pat_completeness auto
termination
proof (relation "measure (\<lambda>(img, it, idx, hp). length (list_objs hp it) - idx)", goal_cases)
  case 1
  show ?case by simp
next
  case (2 img it idx hp r hp')
  have "length (list_objs hp' it) = length (list_objs hp it)"
    using 2(2) by (auto simp: store_pixel_def py_store_def Let_def split: if_splits)
  with 2(1) show ?case by simp
qed

declare enumerate_pixels.simps [simp del]

definition round_and_clip_image :: "heap \<Rightarrow> ref \<Rightarrow> ref result \<times> heap" where
  "round_and_clip_image hp img =
     (case enumerate_pixels img (pixels (dict_objs hp img)) 0 hp of
        (Inl e, hp') \<Rightarrow> (Inl e, hp')
      | (Inr _, hp') \<Rightarrow> (Inr img, hp'))"

definition get_blur_kernel :: "int \<Rightarrow> pynum list result" where
  "get_blur_kernel n =
     (if n ^ 2 = 0 then Inl ZeroDivisionError
      else Inr (replicate (nat (n ^ 2)) (PFloat (1 / of_int (n ^ 2)))))"

definition blurred :: "heap \<Rightarrow> ref \<Rightarrow> int \<Rightarrow> bool \<Rightarrow> ref result \<times> heap" where
  "blurred hp img n correct =
     (case get_blur_kernel n of
        Inl e \<Rightarrow> (Inl e, hp)
      | Inr kern \<Rightarrow>
          (case correlate hp img kern of
             (Inl e, hp') \<Rightarrow> (Inl e, hp')
           | (Inr correlated, hp') \<Rightarrow>
               if correct then round_and_clip_image hp' correlated
               else (Inr correlated, hp')))"

definition sharpened :: "heap \<Rightarrow> ref \<Rightarrow> int \<Rightarrow> ref result \<times> heap" where
  "sharpened hp img n =
     (let (l0, hp1) = new_list [] hp;
          (result, hp2) = new_dict \<lparr>height = height (dict_objs hp1 img),
                                    width = width (dict_objs hp1 img), pixels = l0\<rparr> hp1;
          xs = pixels (dict_objs hp2 img)
      in case blurred hp2 img n False of
           (Inl e, hp3) \<Rightarrow> (Inl e, hp3)
         | (Inr b, hp3) \<Rightarrow>
             (let ys = pixels (dict_objs hp3 b);
                  (l, hp4) = new_list (map (\<lambda>(x, y). py_sub (py_mul (PInt 2) x) y)
                                         (zip (list_objs hp3 xs) (list_objs hp3 ys))) hp3
              in round_and_clip_image (set_pixels_key hp4 result l) result))"

definition Kx :: "pynum list" where
  "Kx = map PInt [- 1, 0, 1, - 2, 0, 2, - 1, 0, 1]"

definition Ky :: "pynum list" where
  "Ky = map PInt [- 1, - 2, - 1, 0, 0, 0, 1, 2, 1]"

definition edges :: "heap \<Rightarrow> ref \<Rightarrow> ref result \<times> heap" where
  "edges hp i =
     (let (Oxy, hp1) = new_dict (dict_objs hp i) hp
      in case correlate hp1 i Kx of
           (Inl e, hp2) \<Rightarrow> (Inl e, hp2)
         | (Inr Ox, hp2) \<Rightarrow>
             (case correlate hp2 i Ky of
                (Inl e, hp3) \<Rightarrow> (Inl e, hp3)
              | (Inr Oy, hp3) \<Rightarrow>
                  (let (l, hp4) = new_list (map (\<lambda>(x, y). py_pow_half (py_add (py_pow2 x) (py_pow2 y)))
                                   (zip (list_objs hp3 (pixels (dict_objs hp3 Ox)))
                                        (list_objs hp3 (pixels (dict_objs hp3 Oy))))) hp3
                   in round_and_clip_image (set_pixels_key hp4 Oxy l) Oxy)))"

section \<open>Well-formed images\<close>

definition valid_image :: "heap \<Rightarrow> ref \<Rightarrow> bool" where
  "valid_image hp img \<longleftrightarrow>
     img < fresh hp \<and> pixels (dict_objs hp img) < fresh hp \<and>
     0 \<le> height (dict_objs hp img) \<and> 0 \<le> width (dict_objs hp img) \<and>
     int (length (list_objs hp (pixels (dict_objs hp img)))) =
       height (dict_objs hp img) * width (dict_objs hp img)"

section \<open>Notions used in the statements and proofs\<close>

text \<open>The pixel that \<open>get_pixel\<close> reads in a well-formed image with at least one row and one column.\<close>

definition pixel_at :: "heap \<Rightarrow> ref \<Rightarrow> int \<Rightarrow> int \<Rightarrow> pynum" where
  "pixel_at hp img x y =
     list_objs hp (pixels (dict_objs hp img)) !
       nat (in_bound (height (dict_objs hp img)) x * width (dict_objs hp img)
            + in_bound (width (dict_objs hp img)) y)"

text \<open>The weighted sum that the inner loops of \<open>correlate\<close> accumulate at output coordinate
  \<open>(x, y)\<close>, and the pixel list the outer loops build from it, row by row.\<close>

definition window_sum :: "heap \<Rightarrow> ref \<Rightarrow> pynum list \<Rightarrow> int \<Rightarrow> int \<Rightarrow> real" where
  "window_sum hp img kern x y =
     (let n = int (isqrt (length kern)); nl = py_int_half (n - 1)
      in sum_list (map (\<lambda>h. sum_list (map (\<lambda>w.
           to_real (kern ! nat (h * n + w)) * to_real (pixel_at hp img (x - nl + h) (y - nl + w)))
           (py_range n))) (py_range n)))"

definition correlated_pixels :: "heap \<Rightarrow> ref \<Rightarrow> pynum list \<Rightarrow> pynum list" where
  "correlated_pixels hp img kern =
     concat (map (\<lambda>x. map (\<lambda>y. PFloat (window_sum hp img kern x y))
                            (py_range (width (dict_objs hp img))))
                 (py_range (height (dict_objs hp img))))"

text \<open>The store after a filter has allocated its result: a new list object holding \<open>vs\<close>
  and a new dictionary with the height and width of \<open>img\<close>.\<close>

definition with_result :: "heap \<Rightarrow> ref \<Rightarrow> pynum list \<Rightarrow> heap" where
  "with_result hp img vs =
     hp\<lparr>list_objs := (list_objs hp)(fresh hp := vs),
        dict_objs := (dict_objs hp)(Suc (fresh hp) :=
            \<lparr>height = height (dict_objs hp img), width = width (dict_objs hp img),
             pixels = fresh hp\<rparr>),
        fresh := Suc (Suc (fresh hp))\<rparr>"

text \<open>Concrete inputs: a store holding one image (the dictionary at reference 0, its pixel
  list at reference 1).\<close>

definition one_image :: "int \<Rightarrow> int \<Rightarrow> pynum list \<Rightarrow> heap" where
  "one_image h w ps =
     \<lparr>dict_objs = (\<lambda>_. \<lparr>height = 0, width = 0, pixels = 1\<rparr>)(0 := \<lparr>height = h, width = w, pixels = 1\<rparr>),
      list_objs = (\<lambda>_. [])(1 := ps), fresh = 2\<rparr>"

text \<open>
  The sum of the specification of \<open>correlate\<close>, in a given arithmetic: \<open>window\<close> lists, for
  a kernel of length \<open>n * n\<close> and the output coordinate \<open>(x, y)\<close>, the pairs of
  \<open>kernel[kr * n + kc]\<close> and the pixel \<open>p (x - half + kr) (y - half + kc)\<close> with
  \<open>half = (n - 1) div 2\<close>, for \<open>kr\<close> and then \<open>kc\<close> from \<open>0\<close> to \<open>n - 1\<close>; \<open>accumulate\<close>
  adds the products of the pairs to \<open>s\<close> one after the other, and raises what \<open>mul\<close> or
  \<open>add\<close> raises first.
\<close>

fun accumulate :: "arith \<Rightarrow> arith \<Rightarrow> (pynum \<times> pynum) list \<Rightarrow> pynum \<Rightarrow> pynum result" where
  "accumulate add mul [] s = Inr s"
| "accumulate add mul ((k, p) # rest) s =
     (case mul k p of
        Inl e \<Rightarrow> Inl e
      | Inr v \<Rightarrow> (case add s v of Inl e \<Rightarrow> Inl e | Inr s' \<Rightarrow> accumulate add mul rest s'))"

definition window :: "pynum list \<Rightarrow> nat \<Rightarrow> (int \<Rightarrow> int \<Rightarrow> pynum) \<Rightarrow> int \<Rightarrow> int \<Rightarrow> (pynum \<times> pynum) list" where
  "window kern n p x y =
     concat (map (\<lambda>kr. map (\<lambda>kc. (kern ! (kr * n + kc),
                                      p (x - (int n - 1) div 2 + int kr) (y - (int n - 1) div 2 + int kc)))
                             [0..<n])
                 [0..<n])"

text \<open>A loop that only threads a value that may raise; used to relate \<open>for_each\<close> to
  \<open>accumulate\<close>.\<close>

fun fold_res :: "('i \<Rightarrow> 's \<Rightarrow> 's result) \<Rightarrow> 'i list \<Rightarrow> 's \<Rightarrow> 's result" where
  "fold_res step [] s = Inr s"
| "fold_res step (i # is) s =
     (case step i s of Inl e \<Rightarrow> Inl e | Inr s' \<Rightarrow> fold_res step is s')"

text \<open>A valid 8-bit sample: an int between 0 and 255; an image all of whose pixels are.\<close>

fun is_byte :: "pynum \<Rightarrow> bool" where
  "is_byte (PInt i) = (0 \<le> i \<and> i \<le> 255)"
| "is_byte (PFloat x) = False"

definition byte_pixels :: "heap \<Rightarrow> ref \<Rightarrow> bool" where
  "byte_pixels hp img = list_all is_byte (list_objs hp (pixels (dict_objs hp img)))"

text \<open>The image \<open>img\<close> of the store \<open>hp\<close> is the same in \<open>hp'\<close>: the same height, width
  and pixel list object, holding the same pixels.\<close>

definition unchanged :: "heap \<Rightarrow> ref \<Rightarrow> heap \<Rightarrow> bool" where
  "unchanged hp img hp' \<longleftrightarrow>
     dict_objs hp' img = dict_objs hp img \<and>
     list_objs hp' (pixels (dict_objs hp img)) = list_objs hp (pixels (dict_objs hp img))"

text \<open>No object allocated in \<open>hp\<close> differs in \<open>hp'\<close>.\<close>

definition preserves :: "heap \<Rightarrow> heap \<Rightarrow> bool" where
  "preserves hp hp' \<longleftrightarrow>
     fresh hp \<le> fresh hp' \<and>
     (\<forall>r < fresh hp. dict_objs hp' r = dict_objs hp r \<and> list_objs hp' r = list_objs hp r)"

text \<open>The 11x11 image of the tests, 255 at row 5, column 5 and 0 elsewhere; and the 11x11
  pixel list that is \<open>v\<close> on rows and columns \<open>lo\<close> to \<open>hi\<close> and 0 elsewhere.\<close>

definition centered_pixel :: "pynum list" where
  "centered_pixel = map PInt (replicate 60 0 @ [255] @ replicate 60 0)"

definition block :: "int \<Rightarrow> int \<Rightarrow> pynum \<Rightarrow> pynum list" where
  "block lo hi v =
     concat (map (\<lambda>x. map (\<lambda>y. if lo \<le> x \<and> x \<le> hi \<and> lo \<le> y \<and> y \<le> hi then v else PInt 0)
                            (py_range 11))
                 (py_range 11))"

section \<open>Boundary resolution and pixel access\<close>

text \<open>
  C2: \<open>in_bound\<close> returns 0 for a negative coordinate, \<open>dimensionSize - 1\<close> for a
  coordinate at or beyond \<open>dimensionSize\<close>, and the coordinate itself otherwise, for all
  integers; the cases are read in this order.
\<close>

theorem in_bound_cases:
  "in_bound dimensionSize coordinate =
     (if coordinate < 0 then 0
      else if coordinate \<ge> dimensionSize then dimensionSize - 1
      else coordinate)"
  by (simp add: in_bound_def)

section \<open>Loops, arithmetic and list access\<close>

lemma py_range_set: "i \<in> set (py_range n) \<longleftrightarrow> 0 \<le> i \<and> i < n"
  by (auto simp: py_range_def image_iff intro!: bexI [of _ "nat i"])

lemma for_each_fold:
  assumes "\<And>i s. i \<in> set xs \<Longrightarrow> body i s = (Inr (), f i s)"
  shows "for_each xs body s = (Inr (), fold f xs s)"
  using assms by (induction xs arbitrary: s) simp_all

lemma isqrt_bounds: "isqrt m * isqrt m \<le> m \<and> m < (isqrt m + 1) * (isqrt m + 1)"
  by (induction m) (auto simp: Let_def)

lemma isqrt_square: "isqrt (n * n) = n"
proof -
  have 1: "isqrt (n * n) * isqrt (n * n) \<le> n * n"
    and 2: "n * n < (isqrt (n * n) + 1) * (isqrt (n * n) + 1)"
    using isqrt_bounds [of "n * n"] by simp_all
  have "\<not> n < isqrt (n * n)"
  proof
    assume "n < isqrt (n * n)"
    then have "(n + 1) * (n + 1) \<le> isqrt (n * n) * isqrt (n * n)"
      by (intro mult_le_mono) simp_all
    with 1 show False by simp
  qed
  moreover have "\<not> isqrt (n * n) < n"
  proof
    assume "isqrt (n * n) < n"
    then have "(isqrt (n * n) + 1) * (isqrt (n * n) + 1) \<le> n * n"
      by (intro mult_le_mono) simp_all
    with 2 show False by simp
  qed
  ultimately show ?thesis by simp
qed

lemma in_bound_range: "1 \<le> d \<Longrightarrow> 0 \<le> in_bound d s \<and> in_bound d s < d"
  by (simp add: in_bound_def)

lemma index_in_range:
  fixes r c h w :: int
  assumes "0 \<le> r" "r < h" "0 \<le> c" "c < w"
  shows "0 \<le> r * w + c \<and> r * w + c < h * w"
proof
  show "0 \<le> r * w + c" using assms by simp
  have "r * w + c < r * w + w" using assms by simp
  also have "\<dots> = (r + 1) * w" by (simp add: algebra_simps)
  also have "\<dots> \<le> h * w" using assms by (intro mult_right_mono) simp_all
  finally show "r * w + c < h * w" .
qed

lemma get_pixel_valid:
  assumes "valid_image hp img" "1 \<le> height (dict_objs hp img)" "1 \<le> width (dict_objs hp img)"
  shows "get_pixel hp img x y =
           Inr (list_objs hp (pixels (dict_objs hp img)) !
                  nat (in_bound (height (dict_objs hp img)) x * width (dict_objs hp img)
                       + in_bound (width (dict_objs hp img)) y))"
proof -
  let ?h = "height (dict_objs hp img)" and ?w = "width (dict_objs hp img)"
  have "0 \<le> in_bound ?h x * ?w + in_bound ?w y \<and> in_bound ?h x * ?w + in_bound ?w y < ?h * ?w"
    using in_bound_range [OF assms(2), of x] in_bound_range [OF assms(3), of y]
    by (intro index_in_range) simp_all
  then show ?thesis
    using assms(1) by (simp add: get_pixel_def py_index_def valid_image_def Let_def)
qed

lemma get_pixel_pixel_at:
  assumes "valid_image hp img" "1 \<le> height (dict_objs hp img)" "1 \<le> width (dict_objs hp img)"
  shows "get_pixel hp img x y = Inr (pixel_at hp img x y)"
  using get_pixel_valid [OF assms] by (simp add: pixel_at_def)

lemma py_add_PFloat: "py_add (PFloat a) v = PFloat (a + to_real v)"
  by (cases v) simp_all

lemma to_real_py_mul: "to_real (py_mul a b) = to_real a * to_real b"
  by (cases a; cases b) simp_all

lemma fold_PFloat:
  assumes "\<And>i b. i \<in> set xs \<Longrightarrow> G i (PFloat b) = PFloat (b + g i)"
  shows "fold G xs (PFloat a) = PFloat (a + sum_list (map g xs))"
  using assms by (induction xs arbitrary: a) (simp_all add: add.assoc)

lemma kernel_index:
  fixes h w n :: int
  assumes "0 \<le> h" "h < n" "0 \<le> w" "w < n" "n * n \<le> int (length kern)"
  shows "py_index kern (h * n + w) = Inr (kern ! nat (h * n + w))"
proof -
  have "0 \<le> h * n + w \<and> h * n + w < n * n"
    using assms by (intro index_in_range) simp_all
  with assms(5) show ?thesis by (simp add: py_index_def Let_def)
qed

lemma isqrt_length: "int (isqrt m) * int (isqrt m) \<le> int m"
  using isqrt_bounds [of m] by (metis of_nat_le_iff of_nat_mult)

lemma weigh_valid:
  assumes "valid_image hp img" "1 \<le> height (dict_objs hp img)" "1 \<le> width (dict_objs hp img)"
  shows "weigh hp img kern (int (isqrt (length kern))) (py_int_half (int (isqrt (length kern)) - 1))
           x y (PFloat 0) = (Inr (), PFloat (window_sum hp img kern x y))"
proof -
  let ?n = "int (isqrt (length kern))"
  let ?nl = "py_int_half (?n - 1)"
  let ?t = "\<lambda>h w. py_mul (kern ! nat (h * ?n + w)) (pixel_at hp img (x - ?nl + h) (y - ?nl + w))"
  let ?inner = "\<lambda>h. fold (\<lambda>w acc. py_add acc (?t h w)) (py_range ?n)"
  have inner: "for_each (py_range ?n) (\<lambda>w newpixel.
         case py_index kern (h * ?n + w) of
           Inl e \<Rightarrow> (Inl e, newpixel)
         | Inr k \<Rightarrow>
             (case get_pixel hp img (x - ?nl + h) (y - ?nl + w) of
                Inl e \<Rightarrow> (Inl e, newpixel)
              | Inr p \<Rightarrow> (Inr (), py_add newpixel (py_mul k p)))) acc
       = (Inr (), ?inner h acc)" if "h \<in> set (py_range ?n)" for h acc
    by (rule for_each_fold)
      (use that in \<open>simp add: py_range_set kernel_index isqrt_length get_pixel_pixel_at [OF assms]\<close>)
  have "weigh hp img kern ?n ?nl x y (PFloat 0) = (Inr (), fold ?inner (py_range ?n) (PFloat 0))"
    unfolding weigh_def by (rule for_each_fold) (simp add: inner)
  also have "fold ?inner (py_range ?n) (PFloat 0) = PFloat (window_sum hp img kern x y)"
  proof -
    have "?inner h (PFloat b) = PFloat (b + sum_list (map (\<lambda>w. to_real (?t h w)) (py_range ?n)))"
      for h b
      by (rule fold_PFloat) (simp add: py_add_PFloat)
    then have "fold ?inner (py_range ?n) (PFloat 0) =
        PFloat (0 + sum_list (map (\<lambda>h. sum_list (map (\<lambda>w. to_real (?t h w)) (py_range ?n))) (py_range ?n)))"
      by (rule fold_PFloat)
    then show ?thesis
      by (simp add: window_sum_def Let_def to_real_py_mul)
  qed
  finally show ?thesis .
qed

lemma with_result_old:
  assumes "valid_image hp img"
  shows "dict_objs (with_result hp img vs) img = dict_objs hp img"
    and "list_objs (with_result hp img vs) (pixels (dict_objs hp img))
           = list_objs hp (pixels (dict_objs hp img))"
    and "valid_image (with_result hp img vs) img"
  using assms by (simp_all add: with_result_def valid_image_def)

lemma with_result_new:
  "dict_objs (with_result hp img vs) (Suc (fresh hp)) =
     \<lparr>height = height (dict_objs hp img), width = width (dict_objs hp img), pixels = fresh hp\<rparr>"
  "list_objs (with_result hp img vs) (fresh hp) = vs"
  "fresh (with_result hp img vs) = Suc (Suc (fresh hp))"
  by (simp_all add: with_result_def)

lemma set_pixel_with_result:
  "set_pixel (with_result hp img vs) (Suc (fresh hp)) c = with_result hp img (vs @ [c])"
  by (simp add: set_pixel_def with_result_def Let_def)

lemma pixel_at_with_result:
  assumes "valid_image hp img"
  shows "pixel_at (with_result hp img vs) img x y = pixel_at hp img x y"
  using with_result_old [OF assms] by (simp add: pixel_at_def)

lemma window_sum_with_result:
  assumes "valid_image hp img"
  shows "window_sum (with_result hp img vs) img kern x y = window_sum hp img kern x y"
  by (simp add: window_sum_def pixel_at_with_result [OF assms])

lemma for_each_with_result:
  assumes "\<And>i vs. i \<in> set xs \<Longrightarrow>
             body i (with_result hp img vs) = (Inr (), with_result hp img (vs @ F i))"
  shows "for_each xs body (with_result hp img vs)
           = (Inr (), with_result hp img (vs @ concat (map F xs)))"
  using assms by (induction xs arbitrary: vs) simp_all

lemma pixel_loops:
  assumes valid: "valid_image hp img"
    and body: "\<And>x y vs. 0 \<le> x \<Longrightarrow> x < height (dict_objs hp img) \<Longrightarrow>
                 0 \<le> y \<Longrightarrow> y < width (dict_objs hp img) \<Longrightarrow>
                 body x y (with_result hp img vs) = (Inr (), with_result hp img (vs @ [g x y]))"
  shows "for_each (py_range (height (dict_objs hp img))) (\<lambda>x hpx.
           for_each (py_range (width (dict_objs hpx img))) (\<lambda>y hpy. body x y hpy) hpx)
           (with_result hp img [])
         = (Inr (), with_result hp img
              (concat (map (\<lambda>x. map (g x) (py_range (width (dict_objs hp img))))
                           (py_range (height (dict_objs hp img))))))"
proof -
  let ?W = "width (dict_objs hp img)"
  have row: "for_each (py_range (width (dict_objs (with_result hp img vs) img)))
               (\<lambda>y hpy. body x y hpy) (with_result hp img vs)
             = (Inr (), with_result hp img (vs @ map (g x) (py_range ?W)))"
    if "x \<in> set (py_range (height (dict_objs hp img)))" for x vs
  proof -
    have "for_each (py_range ?W) (\<lambda>y hpy. body x y hpy) (with_result hp img vs)
            = (Inr (), with_result hp img (vs @ concat (map (\<lambda>y. [g x y]) (py_range ?W))))"
      by (rule for_each_with_result) (use that in \<open>simp add: py_range_set body\<close>)
    moreover have "concat (map (\<lambda>y. [g x y]) (py_range ?W)) = map (g x) (py_range ?W)"
      by (induction "py_range ?W") simp_all
    ultimately show ?thesis
      by (simp add: with_result_old(1) [OF valid])
  qed
  have "for_each (py_range (height (dict_objs hp img))) (\<lambda>x hpx.
           for_each (py_range (width (dict_objs hpx img))) (\<lambda>y hpy. body x y hpy) hpx)
           (with_result hp img [])
         = (Inr (), with_result hp img ([] @
              concat (map (\<lambda>x. map (g x) (py_range ?W)) (py_range (height (dict_objs hp img))))))"
    by (rule for_each_with_result) (simp add: row)
  then show ?thesis by simp
qed

lemma alloc_result:
  "new_list [] hp = (fresh hp, snd (new_list [] hp))"
  "height (dict_objs (snd (new_list [] hp)) img) = height (dict_objs hp img)"
  "width (dict_objs (snd (new_list [] hp)) img) = width (dict_objs hp img)"
  "new_dict \<lparr>height = height (dict_objs hp img), width = width (dict_objs hp img),
              pixels = fresh hp\<rparr> (snd (new_list [] hp))
     = (Suc (fresh hp), with_result hp img [])"
  by (simp_all add: new_list_def new_dict_def with_result_def)

lemma correlate_valid:
  assumes "valid_image hp img"
  shows "correlate hp img kern =
           (Inr (Suc (fresh hp)), with_result hp img (correlated_pixels hp img kern))"
proof -
  let ?n = "int (isqrt (length kern))"
  let ?body = "\<lambda>x y hpy.
     case weigh hpy img kern ?n (py_int_half (?n - 1)) x y (PFloat 0) of
       (Inl e, _) \<Rightarrow> (Inl e, hpy)
     | (Inr _, newpixel) \<Rightarrow> (Inr (), set_pixel hpy (Suc (fresh hp)) newpixel)"
  have "?body x y (with_result hp img vs)
          = (Inr (), with_result hp img (vs @ [PFloat (window_sum hp img kern x y)]))"
    if "0 \<le> x" "x < height (dict_objs hp img)" "0 \<le> y" "y < width (dict_objs hp img)"
    for x y vs
  proof -
    have "weigh (with_result hp img vs) img kern ?n (py_int_half (?n - 1)) x y (PFloat 0)
            = (Inr (), PFloat (window_sum (with_result hp img vs) img kern x y))"
      by (rule weigh_valid) (use that with_result_old [OF assms] in simp_all)
    then show ?thesis
      by (simp add: window_sum_with_result [OF assms] set_pixel_with_result)
  qed
  note loops = pixel_loops [OF assms, of ?body "\<lambda>x y. PFloat (window_sum hp img kern x y)", OF this]
  show ?thesis
    unfolding correlate_def
    apply (subst alloc_result(1))
    apply (simp only: Let_def prod.case alloc_result(2-) with_result_old(1) [OF assms] loops
        sum.case correlated_pixels_def)
    done
qed

lemma store_pixel_own:
  assumes "idx < length (list_objs hp (pixels (dict_objs hp img)))"
  shows "store_pixel hp img (int idx) v =
           (Inr (), hp\<lparr>list_objs := (list_objs hp)(pixels (dict_objs hp img) :=
                         (list_objs hp (pixels (dict_objs hp img)))[idx := v])\<rparr>)"
  using assms by (simp add: store_pixel_def py_store_def Let_def)

lemma enumerate_pixels_eq:
  assumes "it = pixels (dict_objs hp img)"
  shows "enumerate_pixels img it idx hp =
           (Inr (), hp\<lparr>list_objs := (list_objs hp)(it :=
                         take idx (list_objs hp it) @ map clipped (drop idx (list_objs hp it)))\<rparr>)"
  using assms
proof (induction img it idx hp rule: enumerate_pixels.induct)
  case (1 img it idx hp)
  let ?xs = "list_objs hp it"
  show ?case
  proof (cases "idx < length ?xs")
    case False
    then show ?thesis
      by (subst enumerate_pixels.simps) simp
  next
    case True
    let ?hp' = "hp\<lparr>list_objs := (list_objs hp)(it := ?xs[idx := clipped (?xs ! idx)])\<rparr>"
    have st: "store_pixel hp img (int idx) (clipped (?xs ! idx)) = (Inr (), ?hp')"
      using True "1.prems" store_pixel_own [of idx hp img] by simp
    have "enumerate_pixels img it (Suc idx) ?hp' =
            (Inr (), ?hp'\<lparr>list_objs := (list_objs ?hp')(it :=
               take (Suc idx) (list_objs ?hp' it) @ map clipped (drop (Suc idx) (list_objs ?hp' it)))\<rparr>)"
      using True st "1.prems" by (intro "1.IH") simp_all
    moreover have "take (Suc idx) (?xs[idx := clipped (?xs ! idx)])
                     @ map clipped (drop (Suc idx) (?xs[idx := clipped (?xs ! idx)]))
                   = take idx ?xs @ map clipped (drop idx ?xs)"
      using True by (simp add: take_Suc_conv_app_nth flip: Cons_nth_drop_Suc)
    ultimately show ?thesis
      using True st by (subst enumerate_pixels.simps) simp
  qed
qed

lemma round_and_clip_image_eq:
  "round_and_clip_image hp img =
     (Inr img, hp\<lparr>list_objs := (list_objs hp)(pixels (dict_objs hp img) :=
                     map clipped (list_objs hp (pixels (dict_objs hp img))))\<rparr>)"
  by (simp add: round_and_clip_image_def enumerate_pixels_eq)

lemma round_and_clip_with_result:
  "round_and_clip_image (with_result hp img vs) (Suc (fresh hp)) =
     (Inr (Suc (fresh hp)), with_result hp img (map clipped vs))"
  by (simp add: round_and_clip_image_eq) (simp add: with_result_def)

lemma rows_nth:
  fixes w h :: nat
  assumes "x < h" "y < w"
  shows "concat (map (\<lambda>x. map (g x) [0..<w]) [0..<h]) ! (x * w + y) = g x y"
  using assms
proof (induction h)
  case 0
  then show ?case by simp
next
  case (Suc h)
  let ?A = "concat (map (\<lambda>x. map (g x) [0..<w]) [0..<h])"
  have len: "length ?A = h * w"
    by (induction h) simp_all
  show ?case
  proof (cases "x < h")
    case True
    then have "x * w + y < h * w"
    proof -
      have "x * w + y < x * w + w" using Suc.prems by simp
      also have "\<dots> = Suc x * w" by simp
      also have "\<dots> \<le> h * w" using True by (intro mult_le_mono1) simp
      finally show ?thesis .
    qed
    with True Suc show ?thesis
      by (simp add: nth_append len)
  next
    case False
    with Suc.prems have "x = h" by simp
    with Suc.prems show ?thesis
      by (simp add: nth_append len)
  qed
qed

lemma rows_length:
  fixes w h :: nat
  shows "length (concat (map (\<lambda>x. map (g x) [0..<w]) [0..<h])) = h * w"
  by (induction h) simp_all

lemma rows_of_list:
  fixes w h :: nat
  assumes "length ps = h * w"
  shows "concat (map (\<lambda>x. map (\<lambda>y. f (ps ! (x * w + y))) [0..<w]) [0..<h]) = map f ps"
proof (rule nth_equalityI)
  show "length (concat (map (\<lambda>x. map (\<lambda>y. f (ps ! (x * w + y))) [0..<w]) [0..<h])) = length (map f ps)"
    using assms by (simp add: rows_length)
next
  fix k
  assume "k < length (concat (map (\<lambda>x. map (\<lambda>y. f (ps ! (x * w + y))) [0..<w]) [0..<h]))"
  then have k: "k < h * w" by (simp add: rows_length)
  then have "0 < w" by (cases w) simp_all
  then have "k mod w < w" by simp
  moreover have "k div w < h"
    using k by (simp add: less_mult_imp_div_less)
  ultimately have "concat (map (\<lambda>x. map (\<lambda>y. f (ps ! (x * w + y))) [0..<w]) [0..<h]) ! (k div w * w + k mod w)
         = f (ps ! (k div w * w + k mod w))"
    by (rule rows_nth [where g = "\<lambda>x y. f (ps ! (x * w + y))", rotated])
  then show "concat (map (\<lambda>x. map (\<lambda>y. f (ps ! (x * w + y))) [0..<w]) [0..<h]) ! k = map f ps ! k"
    using k assms by simp
qed

text \<open>
  C10: in an image with at least one row and one column whose pixel list has
  \<open>height * width\<close> elements, \<open>get_pixel\<close> at any integer coordinates, however negative
  or large, resolves to a row \<open>r\<close> and a column \<open>c\<close> inside the image; the index
  \<open>r * width + c\<close> is inside the pixel list, so the access does not fail and returns an
  element of the pixel list.
\<close>

theorem get_pixel_in_bounds:
  assumes "valid_image hp img"
    and "1 \<le> height (dict_objs hp img)" and "1 \<le> width (dict_objs hp img)"
  shows "\<exists>r c. r = in_bound (height (dict_objs hp img)) x \<and>
           c = in_bound (width (dict_objs hp img)) y \<and>
           0 \<le> r \<and> r < height (dict_objs hp img) \<and>
           0 \<le> c \<and> c < width (dict_objs hp img) \<and>
           0 \<le> r * width (dict_objs hp img) + c \<and>
           r * width (dict_objs hp img) + c < int (length (list_objs hp (pixels (dict_objs hp img)))) \<and>
           get_pixel hp img x y =
             Inr (list_objs hp (pixels (dict_objs hp img)) ! nat (r * width (dict_objs hp img) + c)) \<and>
           list_objs hp (pixels (dict_objs hp img)) ! nat (r * width (dict_objs hp img) + c)
             \<in> set (list_objs hp (pixels (dict_objs hp img)))"
proof -
  let ?h = "height (dict_objs hp img)" and ?w = "width (dict_objs hp img)"
  let ?ps = "list_objs hp (pixels (dict_objs hp img))"
  let ?r = "in_bound ?h x" and ?c = "in_bound ?w y"
  have rc: "0 \<le> ?r \<and> ?r < ?h" "0 \<le> ?c \<and> ?c < ?w"
    using in_bound_range assms(2,3) by simp_all
  then have idx: "0 \<le> ?r * ?w + ?c \<and> ?r * ?w + ?c < ?h * ?w"
    by (intro index_in_range) simp_all
  have len: "int (length ?ps) = ?h * ?w"
    using assms(1) by (simp add: valid_image_def)
  have "nat (?r * ?w + ?c) < length ?ps"
    using idx len by linarith
  then have "?ps ! nat (?r * ?w + ?c) \<in> set ?ps"
    by (rule nth_mem)
  with rc idx len get_pixel_valid [OF assms, of x y] show ?thesis
    by simp
qed

theorem get_pixel_in_bounds_witness:
  "valid_image (one_image 2 3 (map PInt [10, 20, 30, 40, 50, 60])) 0 \<and>
   1 \<le> height (dict_objs (one_image 2 3 (map PInt [10, 20, 30, 40, 50, 60])) 0) \<and>
   1 \<le> width (dict_objs (one_image 2 3 (map PInt [10, 20, 30, 40, 50, 60])) 0) \<and>
   get_pixel (one_image 2 3 (map PInt [10, 20, 30, 40, 50, 60])) 0 (- 7) 9 = Inr (PInt 30) \<and>
   PInt 30 \<in> set (list_objs (one_image 2 3 (map PInt [10, 20, 30, 40, 50, 60])) 1)"
proof -
  let ?H = "one_image 2 3 (map PInt [10, 20, 30, 40, 50, 60])"
  have v: "valid_image ?H 0"
    by (simp add: valid_image_def one_image_def)
  have h: "1 \<le> height (dict_objs ?H 0)" and w: "1 \<le> width (dict_objs ?H 0)"
    by (simp_all add: one_image_def)
  have "in_bound (height (dict_objs ?H 0)) (- 7) = 0" "in_bound (width (dict_objs ?H 0)) 9 = 2"
    by (simp_all add: in_bound_def one_image_def)
  with get_pixel_in_bounds [OF v h w, of "- 7" 9]
  have "get_pixel ?H 0 (- 7) 9 = Inr (PInt 30) \<and> PInt 30 \<in> set (list_objs ?H 1)"
    by (simp add: one_image_def)
  with v h w show ?thesis
    by blast
qed

lemma correlated_pixels_rows:
  "correlated_pixels hp img kern =
     concat (map (\<lambda>x. map (\<lambda>y. PFloat (window_sum hp img kern (int x) (int y)))
                            [0..<nat (width (dict_objs hp img))])
                 [0..<nat (height (dict_objs hp img))])"
  by (simp add: correlated_pixels_def py_range_def comp_def)

lemma for_each_cong:
  assumes "\<And>i s. i \<in> set xs \<Longrightarrow> body i s = body' i s"
  shows "for_each xs body s = for_each xs body' s"
  using assms by (induction xs arbitrary: s) (simp_all split: prod.splits sum.splits)

lemma weigh_exact:
  "weigh hp img kern ks nl x y s =
     weigh_with (\<lambda>a b. Inr (py_add a b)) (\<lambda>a b. Inr (py_mul a b)) hp img kern ks nl x y s"
  unfolding weigh_def weigh_with_def
  by (intro for_each_cong) (simp split: sum.splits)

lemma correlate_exact:
  "correlate hp img kern =
     correlate_with (\<lambda>a b. Inr (py_add a b)) (\<lambda>a b. Inr (py_mul a b)) hp img kern"
  by (simp add: correlate_def correlate_with_def weigh_exact new_list_def new_dict_def Let_def)

lemma fold_res_append:
  "fold_res step (xs @ ys) s =
     (case fold_res step xs s of Inl e \<Rightarrow> Inl e | Inr s' \<Rightarrow> fold_res step ys s')"
  by (induction xs arbitrary: s) (simp_all split: sum.splits)

lemma fold_res_concat:
  "fold_res step (concat xss) s = fold_res (\<lambda>xs. fold_res step xs) xss s"
  by (induction xss arbitrary: s) (simp_all add: fold_res_append split: sum.splits)

lemma fold_res_map:
  "fold_res step (map f xs) s = fold_res (\<lambda>i. step (f i)) xs s"
  by (induction xs arbitrary: s) (simp_all split: sum.splits)

lemma fold_res_map_fun:
  "fold_res step (map f xs) = fold_res (\<lambda>i. step (f i)) xs"
  by (rule ext) (rule fold_res_map)

lemma fold_res_cong:
  assumes "\<And>i s. i \<in> set xs \<Longrightarrow> step i s = step' i s"
  shows "fold_res step xs s = fold_res step' xs s"
  using assms by (induction xs arbitrary: s) (simp_all split: sum.splits)

lemma accumulate_fold_res:
  "accumulate add mul kps s =
     fold_res (\<lambda>kp s. case mul (fst kp) (snd kp) of Inl e \<Rightarrow> Inl e | Inr v \<Rightarrow> add s v) kps s"
  by (induction kps arbitrary: s) (auto split: sum.splits)

lemma for_each_steps:
  assumes "\<And>i s. i \<in> set xs \<Longrightarrow>
             (case step i s of
                Inl e \<Rightarrow> fst (body i s) = Inl e
              | Inr s' \<Rightarrow> body i s = (Inr (), s'))"
  shows "case fold_res step xs s of
           Inl e \<Rightarrow> fst (for_each xs body s) = Inl e
         | Inr s' \<Rightarrow> for_each xs body s = (Inr (), s')"
  using assms
proof (induction xs arbitrary: s)
  case Nil
  then show ?case by simp
next
  case (Cons i xs)
  show ?case
  proof (cases "step i s")
    case (Inl e)
    with Cons.prems [of i s] have "fst (body i s) = Inl e" by simp
    then show ?thesis
      using Inl by (cases "body i s") simp
  next
    case (Inr s')
    with Cons.prems [of i s] have "body i s = (Inr (), s')" by simp
    moreover have "case fold_res step xs s' of
           Inl e \<Rightarrow> fst (for_each xs body s') = Inl e
         | Inr s'' \<Rightarrow> for_each xs body s' = (Inr (), s'')"
      by (rule Cons.IH) (simp add: Cons.prems)
    ultimately show ?thesis
      using Inr by (simp split: sum.splits)
  qed
qed

lemma weigh_with_accumulate:
  assumes "valid_image hp img" "1 \<le> height (dict_objs hp img)" "1 \<le> width (dict_objs hp img)"
    and "n * n \<le> length kern"
  shows "case accumulate add mul (window kern n (pixel_at hp img) x y) s of
           Inl e \<Rightarrow> fst (weigh_with add mul hp img kern (int n) ((int n - 1) div 2) x y s) = Inl e
         | Inr v \<Rightarrow> weigh_with add mul hp img kern (int n) ((int n - 1) div 2) x y s = (Inr (), v)"
proof -
  let ?nl = "(int n - 1) div 2"
  let ?step = "\<lambda>h w s. case mul (kern ! nat (h * int n + w))
                                (pixel_at hp img (x - ?nl + h) (y - ?nl + w)) of
                        Inl e \<Rightarrow> Inl e | Inr v \<Rightarrow> add s v"
  let ?inner = "\<lambda>h w newpixel.
         case py_index kern (h * int n + w) of
           Inl e \<Rightarrow> (Inl e, newpixel)
         | Inr k \<Rightarrow>
             (case get_pixel hp img (x - ?nl + h) (y - ?nl + w) of
                Inl e \<Rightarrow> (Inl e, newpixel)
              | Inr p \<Rightarrow>
                  (case mul k p of
                     Inl e \<Rightarrow> (Inl e, newpixel)
                   | Inr v \<Rightarrow>
                       (case add newpixel v of
                          Inl e \<Rightarrow> (Inl e, newpixel)
                        | Inr s \<Rightarrow> (Inr (), s))))"
  have inner: "case fold_res (?step h) (py_range (int n)) s of
           Inl e \<Rightarrow> fst (for_each (py_range (int n)) (?inner h) s) = Inl e
         | Inr s' \<Rightarrow> for_each (py_range (int n)) (?inner h) s = (Inr (), s')"
    if "h \<in> set (py_range (int n))" for h s
  proof (rule for_each_steps)
    fix w s
    assume "w \<in> set (py_range (int n))"
    with that have "py_index kern (h * int n + w) = Inr (kern ! nat (h * int n + w))"
      using assms(4) by (intro kernel_index) (simp_all add: py_range_set flip: of_nat_mult)
    then show "case ?step h w s of
                Inl e \<Rightarrow> fst (?inner h w s) = Inl e
              | Inr s' \<Rightarrow> ?inner h w s = (Inr (), s')"
      by (simp add: get_pixel_pixel_at [OF assms(1-3)] split: sum.splits)
  qed
  have outer: "case fold_res (\<lambda>h. fold_res (?step h) (py_range (int n))) (py_range (int n)) s of
           Inl e \<Rightarrow> fst (weigh_with add mul hp img kern (int n) ?nl x y s) = Inl e
         | Inr v \<Rightarrow> weigh_with add mul hp img kern (int n) ?nl x y s = (Inr (), v)"
    unfolding weigh_with_def
    by (rule for_each_steps) (rule inner)
  have "accumulate add mul (window kern n (pixel_at hp img) x y) s
          = fold_res (\<lambda>h. fold_res (?step h) (py_range (int n))) (py_range (int n)) s"
  proof -
    have "nat (int kr * int n + int kc) = kr * n + kc" for kr kc
      by (simp add: nat_add_distrib nat_mult_distrib)
    then show ?thesis
      by (simp add: accumulate_fold_res window_def fold_res_concat fold_res_map
          fold_res_map_fun py_range_def)
  qed
  with outer show ?thesis by simp
qed


lemma get_pixel_with_result:
  assumes "valid_image hp img"
  shows "get_pixel (with_result hp img vs) img a b = get_pixel hp img a b"
  using with_result_old [OF assms] by (simp add: get_pixel_def)

lemma weigh_with_with_result:
  assumes "valid_image hp img"
  shows "weigh_with add mul (with_result hp img vs) img kern ks nl x y s
           = weigh_with add mul hp img kern ks nl x y s"
  unfolding weigh_with_def
  by (intro for_each_cong) (simp add: get_pixel_with_result [OF assms] split: sum.splits)

lemma for_each_outcome:
  assumes "\<And>i s. i \<in> set xs \<Longrightarrow> I s \<Longrightarrow>
             (\<exists>s'. body i s = (Inr (), s') \<and> I s') \<or> (\<exists>e s'. body i s = (Inl e, s') \<and> Q e)"
    and "I s"
  shows "(\<exists>s'. for_each xs body s = (Inr (), s') \<and> I s')
           \<or> (\<exists>e s'. for_each xs body s = (Inl e, s') \<and> Q e)"
  using assms
proof (induction xs arbitrary: s)
  case Nil
  then show ?case by simp
next
  case (Cons i xs)
  from Cons.prems(1) [of i s] Cons.prems(2)
  consider s' where "body i s = (Inr (), s')" "I s'" | e s' where "body i s = (Inl e, s')" "Q e"
    by auto
  then show ?case
  proof cases
    case 1
    have step: "(\<exists>s'. body k t = (Inr (), s') \<and> I s') \<or> (\<exists>e s'. body k t = (Inl e, s') \<and> Q e)"
      if "k \<in> set xs" "I t" for k t
      by (rule Cons.prems(1)) (use that in simp_all)
    have "(\<exists>s''. for_each xs body s' = (Inr (), s'') \<and> I s'')
           \<or> (\<exists>e s''. for_each xs body s' = (Inl e, s'') \<and> Q e)"
      by (rule Cons.IH [OF step 1(2)])
    with 1(1) show ?thesis by simp
  next
    case 2
    then show ?thesis by simp
  qed
qed

lemma for_each_fails:
  assumes "\<And>i s. i \<in> set xs \<Longrightarrow> I s \<Longrightarrow>
             (\<exists>s'. body i s = (Inr (), s') \<and> I s') \<or> (\<exists>e s'. body i s = (Inl e, s') \<and> Q e)"
    and "j \<in> set xs" and "\<And>s. I s \<Longrightarrow> \<exists>e s'. body j s = (Inl e, s')"
    and "I s"
  shows "\<exists>e s'. for_each xs body s = (Inl e, s') \<and> Q e"
  using assms
proof (induction xs arbitrary: s)
  case Nil
  then show ?case by simp
next
  case (Cons i xs)
  from Cons.prems(1) [of i s] Cons.prems(4)
  consider s' where "body i s = (Inr (), s')" "I s'" | e s' where "body i s = (Inl e, s')" "Q e"
    by auto
  then show ?case
  proof cases
    case 1
    with Cons.prems(3) [OF Cons.prems(4)] have "j \<noteq> i" by auto
    with Cons.prems(2) have j: "j \<in> set xs" by simp
    have step: "(\<exists>s'. body k t = (Inr (), s') \<and> I s') \<or> (\<exists>e s'. body k t = (Inl e, s') \<and> Q e)"
      if "k \<in> set xs" "I t" for k t
      by (rule Cons.prems(1)) (use that in simp_all)
    have "\<exists>e s''. for_each xs body s' = (Inl e, s'') \<and> Q e"
      by (rule Cons.IH [OF step j Cons.prems(3) 1(2)])
    with 1(1) show ?thesis by simp
  next
    case 2
    then show ?thesis by simp
  qed
qed

lemma correlate_with_unfold:
  assumes "valid_image hp img"
  shows "correlate_with add mul hp img kern =
     (case for_each (py_range (height (dict_objs hp img))) (\<lambda>x hpx.
             for_each (py_range (width (dict_objs hpx img))) (\<lambda>y hpy.
               case weigh_with add mul hpy img kern (int (isqrt (length kern)))
                      (py_int_half (int (isqrt (length kern)) - 1)) x y (PFloat 0) of
                 (Inl e, _) \<Rightarrow> (Inl e, hpy)
               | (Inr _, newpixel) \<Rightarrow> (Inr (), set_pixel hpy (Suc (fresh hp)) newpixel)) hpx)
           (with_result hp img []) of
        (Inl e, hp') \<Rightarrow> (Inl e, hp')
      | (Inr _, hp') \<Rightarrow> (Inr (Suc (fresh hp)), hp'))"
  unfolding correlate_with_def
  apply (subst alloc_result(1))
  apply (simp only: Let_def prod.case alloc_result(2-) with_result_old(1) [OF assms])
  done

lemma correlate_with_body:
  assumes "valid_image hp img" and "length kern = n * n" and "0 < n"
    and "0 \<le> x" "x < height (dict_objs hp img)" "0 \<le> y" "y < width (dict_objs hp img)"
  shows "(case weigh_with add mul (with_result hp img vs) img kern (int (isqrt (length kern)))
                 (py_int_half (int (isqrt (length kern)) - 1)) x y (PFloat 0) of
            (Inl e, _) \<Rightarrow> (Inl e, with_result hp img vs)
          | (Inr _, newpixel) \<Rightarrow> (Inr (), set_pixel (with_result hp img vs) (Suc (fresh hp)) newpixel))
         = (case accumulate add mul (window kern n (pixel_at hp img) x y) (PFloat 0) of
              Inl e \<Rightarrow> (Inl e, with_result hp img vs)
            | Inr v \<Rightarrow> (Inr (), with_result hp img (vs @ [v])))"
proof -
  have n: "isqrt (length kern) = n"
    by (simp add: assms(2) isqrt_square)
  have nl: "py_int_half (int n - 1) = (int n - 1) div 2"
    using assms(3) by (simp add: py_int_half_def)
  have hw: "1 \<le> height (dict_objs hp img)" "1 \<le> width (dict_objs hp img)"
    using assms(4-7) by simp_all
  have le: "n * n \<le> length kern"
    by (simp add: assms(2))
  from weigh_with_accumulate [OF assms(1) hw le, of add mul x y "PFloat 0"]
  show ?thesis
    unfolding n nl weigh_with_with_result [OF assms(1)]
    by (cases "weigh_with add mul hp img kern (int n) ((int n - 1) div 2) x y (PFloat 0)")
      (auto simp: set_pixel_with_result split: sum.splits)
qed


lemma rows_index:
  assumes "0 \<le> x" "x < h" "0 \<le> y" "y < w"
  shows "py_index (concat (map (\<lambda>x. map (g x) (py_range w)) (py_range h))) (x * w + y)
           = Inr (g x y)"
    and "int (length (concat (map (\<lambda>x. map (g x) (py_range w)) (py_range h)))) = h * w"
proof -
  let ?rows = "concat (map (\<lambda>x. map (g x) (py_range w)) (py_range h))"
  have rows: "?rows = concat (map (\<lambda>x. map (\<lambda>y. g (int x) (int y)) [0..<nat w]) [0..<nat h])"
    by (simp add: py_range_def comp_def)
  have idx: "0 \<le> x * w + y \<and> x * w + y < h * w"
    using assms by (intro index_in_range) simp_all
  have n: "nat (x * w + y) = nat x * nat w + nat y"
    using assms by (simp add: nat_add_distrib nat_mult_distrib)
  have "?rows ! (nat x * nat w + nat y) = g (int (nat x)) (int (nat y))"
    unfolding rows using assms by (intro rows_nth) simp_all
  then have a: "?rows ! nat (x * w + y) = g x y"
    using assms n by simp
  show len: "int (length ?rows) = h * w"
    using assms by (simp add: rows rows_length)
  with idx have b: "\<not> x * w + y < 0" "x * w + y < int (length ?rows)"
    by simp_all
  show "py_index ?rows (x * w + y) = Inr (g x y)"
    unfolding py_index_def using a b by simp
qed

text \<open>
  C1, as amended: for a well-formed image and a kernel of length \<open>n * n\<close> with \<open>n\<close> odd,
  and whatever the arithmetic, \<open>correlate\<close> reads no index out of range and its outcome
  is that of the sums of the specification, each accumulated from \<open>0.0\<close> by
  \<open>s += kernel[kr * n + kc] * get_pixel(image, x - half + kr, y - half + kc)\<close> for \<open>kr\<close>
  and then \<open>kc\<close> from \<open>0\<close> to \<open>n - 1\<close>, with \<open>half = (n - 1) div 2\<close>.  If none of them
  raises, \<open>correlate\<close> returns an image of the same height and width whose pixel at
  \<open>(x, y)\<close> is the value accumulated for \<open>(x, y)\<close>, as it is: not rounded to an integer and
  not clamped.  If one of them raises, \<open>correlate\<close> returns no image: it raises the error
  of one of them.
\<close>

theorem correlate_accumulates:
  assumes "valid_image hp img" and "length kern = n * n" and "odd n"
  shows "\<exists>p.
    (1 \<le> height (dict_objs hp img) \<and> 1 \<le> width (dict_objs hp img) \<longrightarrow>
       (\<forall>a b. get_pixel hp img a b = Inr (p a b))) \<and>
    ((\<forall>x y. 0 \<le> x \<and> x < height (dict_objs hp img) \<and> 0 \<le> y \<and> y < width (dict_objs hp img) \<longrightarrow>
          (\<exists>v. accumulate add mul (window kern n p x y) (PFloat 0) = Inr v)) \<longrightarrow>
       (\<exists>result hp'.
          correlate_with add mul hp img kern = (Inr result, hp') \<and>
          height (dict_objs hp' result) = height (dict_objs hp img) \<and>
          width (dict_objs hp' result) = width (dict_objs hp img) \<and>
          int (length (list_objs hp' (pixels (dict_objs hp' result))))
            = height (dict_objs hp img) * width (dict_objs hp img) \<and>
          (\<forall>x y. 0 \<le> x \<and> x < height (dict_objs hp img) \<and>
                 0 \<le> y \<and> y < width (dict_objs hp img) \<longrightarrow>
             py_index (list_objs hp' (pixels (dict_objs hp' result)))
                 (x * width (dict_objs hp img) + y)
               = accumulate add mul (window kern n p x y) (PFloat 0)))) \<and>
    ((\<exists>x y e. 0 \<le> x \<and> x < height (dict_objs hp img) \<and> 0 \<le> y \<and> y < width (dict_objs hp img) \<and>
          accumulate add mul (window kern n p x y) (PFloat 0) = Inl e) \<longrightarrow>
       (\<exists>x y e hp'.
          correlate_with add mul hp img kern = (Inl e, hp') \<and>
          0 \<le> x \<and> x < height (dict_objs hp img) \<and> 0 \<le> y \<and> y < width (dict_objs hp img) \<and>
          accumulate add mul (window kern n p x y) (PFloat 0) = Inl e))"
proof (intro exI [of _ "pixel_at hp img"] conjI impI)
  let ?H = "height (dict_objs hp img)" and ?W = "width (dict_objs hp img)"
  let ?A = "\<lambda>x y. accumulate add mul (window kern n (pixel_at hp img) x y) (PFloat 0)"
  let ?body = "\<lambda>x y hpy.
     case weigh_with add mul hpy img kern (int (isqrt (length kern)))
            (py_int_half (int (isqrt (length kern)) - 1)) x y (PFloat 0) of
       (Inl e, _) \<Rightarrow> (Inl e, hpy)
     | (Inr _, newpixel) \<Rightarrow> (Inr (), set_pixel hpy (Suc (fresh hp)) newpixel)"
  let ?loops = "for_each (py_range ?H) (\<lambda>x hpx.
                  for_each (py_range (width (dict_objs hpx img))) (\<lambda>y hpy. ?body x y hpy) hpx)
                  (with_result hp img [])"
  from assms(3) have pos: "0 < n" by (cases n) simp_all
  have body: "?body x y (with_result hp img vs)
         = (case ?A x y of
              Inl e \<Rightarrow> (Inl e, with_result hp img vs)
            | Inr v \<Rightarrow> (Inr (), with_result hp img (vs @ [v])))"
    if "0 \<le> x" "x < ?H" "0 \<le> y" "y < ?W" for x y vs
    by (rule correlate_with_body [OF assms(1,2) pos that])
  have unfold: "correlate_with add mul hp img kern =
      (case ?loops of (Inl e, hp') \<Rightarrow> (Inl e, hp') | (Inr _, hp') \<Rightarrow> (Inr (Suc (fresh hp)), hp'))"
    by (rule correlate_with_unfold [OF assms(1)])
  {
    assume "1 \<le> ?H \<and> 1 \<le> ?W"
    then show "\<forall>a b. get_pixel hp img a b = Inr (pixel_at hp img a b)"
      by (simp add: get_pixel_pixel_at [OF assms(1)])
  }
  {
    assume ok: "\<forall>x y. 0 \<le> x \<and> x < ?H \<and> 0 \<le> y \<and> y < ?W \<longrightarrow> (\<exists>v. ?A x y = Inr v)"
    let ?g = "\<lambda>x y. case ?A x y of Inr v \<Rightarrow> v | Inl e \<Rightarrow> PFloat 0"
    let ?rows = "concat (map (\<lambda>x. map (?g x) (py_range ?W)) (py_range ?H))"
    have A: "?A x y = Inr (?g x y)" if "0 \<le> x" "x < ?H" "0 \<le> y" "y < ?W" for x y
    proof -
      from ok that obtain v where "?A x y = Inr v" by blast
      then show ?thesis by simp
    qed
    have "?body x y (with_result hp img vs) = (Inr (), with_result hp img (vs @ [?g x y]))"
      if "0 \<le> x" "x < ?H" "0 \<le> y" "y < ?W" for x y vs
    proof -
      from ok that obtain v where v: "?A x y = Inr v" by blast
      show ?thesis
        unfolding body [OF that] v by simp
    qed
    from pixel_loops [OF assms(1), of ?body ?g, OF this]
    have "?loops = (Inr (), with_result hp img ?rows)" .
    then have c: "correlate_with add mul hp img kern = (Inr (Suc (fresh hp)), with_result hp img ?rows)"
      unfolding unfold by simp
    have px: "list_objs (with_result hp img ?rows)
                (pixels (dict_objs (with_result hp img ?rows) (Suc (fresh hp)))) = ?rows"
      by (simp add: with_result_new)
    have nonneg: "0 \<le> ?H" "0 \<le> ?W"
      using assms(1) by (simp_all add: valid_image_def)
    have len: "int (length ?rows) = ?H * ?W"
      using nonneg by (simp add: py_range_def comp_def rows_length)
    have "py_index ?rows (x * ?W + y) = ?A x y" if "0 \<le> x" "x < ?H" "0 \<le> y" "y < ?W" for x y
    proof -
      have "py_index ?rows (x * ?W + y) = Inr (?g x y)"
        by (rule rows_index(1) [OF that])
      also have "\<dots> = ?A x y"
        by (rule A [OF that, symmetric])
      finally show ?thesis .
    qed
    with c len show "\<exists>result hp'.
          correlate_with add mul hp img kern = (Inr result, hp') \<and>
          height (dict_objs hp' result) = ?H \<and>
          width (dict_objs hp' result) = ?W \<and>
          int (length (list_objs hp' (pixels (dict_objs hp' result)))) = ?H * ?W \<and>
          (\<forall>x y. 0 \<le> x \<and> x < ?H \<and> 0 \<le> y \<and> y < ?W \<longrightarrow>
             py_index (list_objs hp' (pixels (dict_objs hp' result))) (x * ?W + y) = ?A x y)"
      by (intro exI [of _ "Suc (fresh hp)"] exI [of _ "with_result hp img ?rows"])
        (simp only: px, simp add: with_result_new)
  }
  {
    assume "\<exists>x y e. 0 \<le> x \<and> x < ?H \<and> 0 \<le> y \<and> y < ?W \<and> ?A x y = Inl e"
    then obtain x0 y0 e0 where x0: "0 \<le> x0" "x0 < ?H" and y0: "0 \<le> y0" "y0 < ?W"
      and e0: "?A x0 y0 = Inl e0"
      by blast
    let ?I = "\<lambda>s. \<exists>vs. s = with_result hp img vs"
    let ?Q = "\<lambda>e. \<exists>x y. 0 \<le> x \<and> x < ?H \<and> 0 \<le> y \<and> y < ?W \<and> ?A x y = Inl e"
    have inner: "(\<exists>s'. ?body x y s = (Inr (), s') \<and> ?I s') \<or> (\<exists>e s'. ?body x y s = (Inl e, s') \<and> ?Q e)"
      if "x \<in> set (py_range ?H)" "y \<in> set (py_range ?W)" "?I s" for x y s
    proof -
      from that(3) obtain vs where s: "s = with_result hp img vs" by blast
      have r: "0 \<le> x" "x < ?H" "0 \<le> y" "y < ?W"
        using that(1,2) by (simp_all add: py_range_set)
      show ?thesis
      proof (cases "?A x y")
        case (Inl e)
        with r have "?Q e" by blast
        with Inl show ?thesis
          unfolding s body [OF r] by simp
      next
        case (Inr v)
        then show ?thesis
          unfolding s body [OF r] by auto
      qed
    qed
    have width: "width (dict_objs s img) = ?W" if "?I s" for s
      using that with_result_old(1) [OF assms(1)] by auto
    have outer: "(\<exists>s'. for_each (py_range (width (dict_objs s img))) (\<lambda>y hpy. ?body x y hpy) s
                        = (Inr (), s') \<and> ?I s')
                 \<or> (\<exists>e s'. for_each (py_range (width (dict_objs s img))) (\<lambda>y hpy. ?body x y hpy) s
                        = (Inl e, s') \<and> ?Q e)"
      if "x \<in> set (py_range ?H)" "?I s" for x s
      unfolding width [OF that(2)]
    proof (rule for_each_outcome [where I = ?I and Q = ?Q])
      show "?I s" by (rule that(2))
    next
      fix y t
      assume "y \<in> set (py_range ?W)" "?I t"
      then show "(\<exists>s'. ?body x y t = (Inr (), s') \<and> ?I s') \<or> (\<exists>e s'. ?body x y t = (Inl e, s') \<and> ?Q e)"
        by (rule inner [OF that(1)])
    qed
    have bad: "\<exists>e s'. for_each (py_range (width (dict_objs s img))) (\<lambda>y hpy. ?body x0 y hpy) s = (Inl e, s')"
      if "?I s" for s
    proof -
      have xm: "x0 \<in> set (py_range ?H)" and ym: "y0 \<in> set (py_range ?W)"
        using x0 y0 by (simp_all add: py_range_set)
      have "\<exists>e s'. ?body x0 y0 t = (Inl e, s')" if "?I t" for t
      proof -
        from that obtain vs where t: "t = with_result hp img vs" by blast
        show ?thesis
          unfolding t body [OF x0 y0] using e0 by simp
      qed
      note fails = this
      have "\<exists>e s'. for_each (py_range ?W) (\<lambda>y hpy. ?body x0 y hpy) s = (Inl e, s') \<and> ?Q e"
      proof (rule for_each_fails [where I = ?I and Q = ?Q and j = y0])
        show "y0 \<in> set (py_range ?W)" by (rule ym)
        show "?I s" by (rule \<open>?I s\<close>)
      next
        fix y t
        assume "y \<in> set (py_range ?W)" "?I t"
        then show "(\<exists>s'. ?body x0 y t = (Inr (), s') \<and> ?I s') \<or> (\<exists>e s'. ?body x0 y t = (Inl e, s') \<and> ?Q e)"
          by (rule inner [OF xm])
      next
        fix t
        assume "?I t"
        then show "\<exists>e s'. ?body x0 y0 t = (Inl e, s')"
          by (rule fails)
      qed
      then show ?thesis
        unfolding width [OF \<open>?I s\<close>] by blast
    qed
    have "\<exists>e s'. ?loops = (Inl e, s') \<and> ?Q e"
    proof (rule for_each_fails [where I = ?I and Q = ?Q and j = x0])
      show "x0 \<in> set (py_range ?H)"
        using x0 by (simp add: py_range_set)
      show "?I (with_result hp img [])"
        by blast
    next
      fix x t
      assume "x \<in> set (py_range ?H)" "?I t"
      then show "(\<exists>s'. for_each (py_range (width (dict_objs t img))) (\<lambda>y hpy. ?body x y hpy) t
                        = (Inr (), s') \<and> ?I s')
                 \<or> (\<exists>e s'. for_each (py_range (width (dict_objs t img))) (\<lambda>y hpy. ?body x y hpy) t
                        = (Inl e, s') \<and> ?Q e)"
        by (rule outer)
    next
      fix t
      assume "?I t"
      then show "\<exists>e s'. for_each (py_range (width (dict_objs t img))) (\<lambda>y hpy. ?body x0 y hpy) t = (Inl e, s')"
        by (rule bad)
    qed
    then obtain e s' where "?loops = (Inl e, s')" "?Q e"
      by blast
    then show "\<exists>x y e hp'.
          correlate_with add mul hp img kern = (Inl e, hp') \<and>
          0 \<le> x \<and> x < ?H \<and> 0 \<le> y \<and> y < ?W \<and> ?A x y = Inl e"
      unfolding unfold by auto
  }
qed

theorem correlate_accumulates_witness:
  "valid_image (one_image 2 2 (map PInt [1, 2, 3, 4])) 0 \<and>
   length [PInt 2] = 1 * 1 \<and> odd (1 :: nat) \<and>
   (\<exists>result hp'.
      correlate_with add_checked mul_checked (one_image 2 2 (map PInt [1, 2, 3, 4])) 0 [PInt 2]
        = (Inr result, hp') \<and>
      py_index (list_objs hp' (pixels (dict_objs hp' result))) 2 = Inr (PFloat 6))"
proof -
  let ?H = "one_image 2 2 (map PInt [1, 2, 3, 4])"
  let ?A = "\<lambda>p x y. accumulate add_checked mul_checked (window [PInt 2] 1 p x y) (PFloat 0)"
  have v: "valid_image ?H 0"
    by (simp add: valid_image_def one_image_def)
  have l: "length [PInt 2] = 1 * 1"
    by simp
  have o: "odd (1 :: nat)"
    by simp
  have hw: "height (dict_objs ?H 0) = 2" "width (dict_objs ?H 0) = 2"
    by (simp_all add: one_image_def)
  from correlate_accumulates [OF v l o, of add_checked mul_checked, unfolded hw]
  obtain p where
    p: "(1::int) \<le> 2 \<and> (1::int) \<le> 2 \<longrightarrow> (\<forall>a b. get_pixel ?H 0 a b = Inr (p a b))" and
    ok: "(\<forall>x y. 0 \<le> x \<and> x < 2 \<and> 0 \<le> y \<and> y < 2 \<longrightarrow> (\<exists>v. ?A p x y = Inr v)) \<longrightarrow>
       (\<exists>result hp'.
          correlate_with add_checked mul_checked ?H 0 [PInt 2] = (Inr result, hp') \<and>
          height (dict_objs hp' result) = 2 \<and>
          width (dict_objs hp' result) = 2 \<and>
          int (length (list_objs hp' (pixels (dict_objs hp' result)))) = 2 * 2 \<and>
          (\<forall>x y. 0 \<le> x \<and> x < 2 \<and> 0 \<le> y \<and> y < 2 \<longrightarrow>
             py_index (list_objs hp' (pixels (dict_objs hp' result))) (x * 2 + y) = ?A p x y))"
    by (elim exE conjE) (rule that)
  from p have gp: "get_pixel ?H 0 a b = Inr (p a b)" for a b
    by simp
  have vals: "p 0 0 = PInt 1" "p 0 1 = PInt 2" "p 1 0 = PInt 3" "p 1 1 = PInt 4"
    using gp [of 0 0] gp [of 0 1] gp [of 1 0] gp [of 1 1]
    by (simp_all add: get_pixel_def one_image_def in_bound_def py_index_def)
  have acc: "?A p x y = (case mul_checked (PInt 2) (p x y) of
                Inl e \<Rightarrow> Inl e | Inr v \<Rightarrow> add_checked (PFloat 0) v)" for x y
    by (simp add: window_def split: sum.splits)
  have "\<exists>v. ?A p x y = Inr v" if "0 \<le> x \<and> x < 2 \<and> 0 \<le> y \<and> y < 2" for x y :: int
  proof -
    from that have "(x = 0 \<or> x = 1) \<and> (y = 0 \<or> y = 1)"
      by arith
    then show ?thesis
      unfolding acc by (auto simp: vals float_of_int_def)
  qed
  with ok obtain result hp' where
    c: "correlate_with add_checked mul_checked ?H 0 [PInt 2] = (Inr result, hp')" and
    px: "\<forall>x y. 0 \<le> x \<and> x < 2 \<and> 0 \<le> y \<and> y < 2 \<longrightarrow>
             py_index (list_objs hp' (pixels (dict_objs hp' result))) (x * 2 + y) = ?A p x y"
    by blast
  from px have "py_index (list_objs hp' (pixels (dict_objs hp' result))) (1 * 2 + 0) = ?A p 1 0"
    by (rule allE [where x = 1], elim allE [where x = 0]) simp
  then have "py_index (list_objs hp' (pixels (dict_objs hp' result))) 2 = Inr (PFloat 6)"
    unfolding acc by (simp add: vals float_of_int_def)
  with c v l o show ?thesis
    by blast
qed

text \<open>With the exact operations the value accumulated is the sum of the products, as a
  real number.\<close>

lemma accumulate_exact:
  "accumulate (\<lambda>a b. Inr (py_add a b)) (\<lambda>a b. Inr (py_mul a b)) kps (PFloat a)
     = Inr (PFloat (a + (\<Sum>kp\<leftarrow>kps. to_real (fst kp) * to_real (snd kp))))"
  by (induction kps arbitrary: a) (auto simp: py_add_PFloat to_real_py_mul add.assoc)

text \<open>
  C1 as stated fails: on the 1x1 image with pixel \<open>1\<close> and the kernel \<open>[10 ** 400]\<close>, of
  length \<open>1 * 1\<close>, \<open>correlate\<close> returns no image.  \<open>0.0 + 10 ** 400 * 1\<close> raises
  \<open>OverflowError\<close>, the int being too large for a float.
\<close>

theorem correlate_overflow:
  "valid_image (one_image 1 1 [PInt 1]) 0 \<and>
   length [PInt (10 ^ 400)] = 1 * 1 \<and> odd (1 :: nat) \<and>
   fst (correlate_with add_checked mul_checked (one_image 1 1 [PInt 1]) 0 [PInt (10 ^ 400)])
     = Inl OverflowError"
proof -
  let ?H = "one_image 1 1 [PInt 1]"
  have v: "valid_image ?H 0"
    by (simp add: valid_image_def one_image_def)
  have w: "weigh_with add_checked mul_checked hp 0 [PInt k] 1 0 0 0 (PFloat 0)
          = (Inl OverflowError, PFloat 0)"
    if "get_pixel hp 0 0 0 = Inr (PInt 1)" "float_of_int k = Inl OverflowError" for hp k
    using that by (simp add: weigh_with_def py_range_def py_index_def)
  have gp: "get_pixel (with_result ?H 0 vs) 0 0 0 = Inr (PInt 1)" for vs
    by (simp add: get_pixel_with_result [OF v])
      (simp add: get_pixel_def one_image_def in_bound_def py_index_def)
  have hw: "height (dict_objs ?H 0) = 1" "width (dict_objs (with_result ?H 0 vs) 0) = 1" for vs
    using with_result_old(1) [OF v, of vs] by (simp_all add: one_image_def)
  have sq: "isqrt (Suc 0) = 1"
    by (simp add: Let_def)
  have "fst (correlate_with add_checked mul_checked ?H 0 [PInt (10 ^ 400)]) = Inl OverflowError"
    unfolding correlate_with_unfold [OF v] hw
    by (simp add: sq py_int_half_def py_range_def hw w gp float_of_int_def)
  with v show ?thesis
    by simp
qed

lemma round_half_even_nearest:
  "\<bar>x - of_int (round_half_even x)\<bar> < 1 / 2 \<or>
   (\<bar>x - of_int (round_half_even x)\<bar> = 1 / 2 \<and> even (round_half_even x))"
proof -
  have "of_int \<lfloor>x\<rfloor> \<le> x" "x < of_int \<lfloor>x\<rfloor> + 1"
    by linarith+
  then show ?thesis
    unfolding round_half_even_def Let_def
    by (cases "x - of_int \<lfloor>x\<rfloor> < 1 / 2"; cases "1 / 2 < x - of_int \<lfloor>x\<rfloor>") auto
qed

lemma py_round_nearest:
  "\<bar>to_real v - of_int (py_round v)\<bar> < 1 / 2 \<or>
   (\<bar>to_real v - of_int (py_round v)\<bar> = 1 / 2 \<and> even (py_round v))"
proof (cases v)
  case (PInt i)
  then show ?thesis by simp
next
  case (PFloat x)
  with round_half_even_nearest [of x] show ?thesis by simp
qed

lemma nearest_unique:
  fixes x :: real and r r' :: int
  assumes "\<bar>x - of_int r\<bar> < 1 / 2 \<or> (\<bar>x - of_int r\<bar> = 1 / 2 \<and> even r)"
    and "\<bar>x - of_int r'\<bar> < 1 / 2 \<or> (\<bar>x - of_int r'\<bar> = 1 / 2 \<and> even r')"
  shows "r' = r"
proof -
  have "\<bar>(of_int r :: real) - of_int r'\<bar> \<le> 1"
    using assms by linarith
  then have "\<bar>r - r'\<bar> \<le> 1"
    by linarith
  then consider "r' = r" | "r' = r + 1" | "r' = r - 1"
    by linarith
  then show ?thesis
  proof cases
    case 1
    then show ?thesis .
  next
    case 2
    with assms have "even r \<and> even (r + 1)"
      by (auto simp: abs_if split: if_splits)
    then show ?thesis by simp
  next
    case 3
    with assms have "even r \<and> even (r - 1)"
      by (auto simp: abs_if split: if_splits)
    then show ?thesis by simp
  qed
qed

text \<open>
  C3: \<open>round_and_clip_image\<close> maps every pixel \<open>v\<close> to the integer \<open>r\<close> nearest to
  \<open>v\<close>, a tie going to the even neighbour, clamped to 0 below 0 and to 255 above 255.
  (The integer \<open>r\<close> is unique, by \<open>nearest_unique\<close>.)
\<close>

theorem round_and_clip_image_rounds:
  "\<exists>hp'. round_and_clip_image hp img = (Inr img, hp') \<and>
     length (list_objs hp' (pixels (dict_objs hp' img)))
       = length (list_objs hp (pixels (dict_objs hp img))) \<and>
     (\<forall>k < length (list_objs hp (pixels (dict_objs hp img))).
        \<exists>r. (\<bar>to_real (list_objs hp (pixels (dict_objs hp img)) ! k) - of_int r\<bar> < 1 / 2 \<or>
             (\<bar>to_real (list_objs hp (pixels (dict_objs hp img)) ! k) - of_int r\<bar> = 1 / 2 \<and> even r)) \<and>
            list_objs hp' (pixels (dict_objs hp' img)) ! k
              = PInt (if r < 0 then 0 else if 255 < r then 255 else r))"
proof -
  let ?ps = "list_objs hp (pixels (dict_objs hp img))"
  let ?hp' = "hp\<lparr>list_objs := (list_objs hp)(pixels (dict_objs hp img) := map clipped ?ps)\<rparr>"
  have new: "list_objs ?hp' (pixels (dict_objs ?hp' img)) = map clipped ?ps"
    by simp
  have "\<exists>r. (\<bar>to_real (?ps ! k) - of_int r\<bar> < 1 / 2 \<or>
             (\<bar>to_real (?ps ! k) - of_int r\<bar> = 1 / 2 \<and> even r)) \<and>
            map clipped ?ps ! k = PInt (if r < 0 then 0 else if 255 < r then 255 else r)"
    if "k < length ?ps" for k
    using that py_round_nearest [of "?ps ! k"]
    by (intro exI [of _ "py_round (?ps ! k)"]) (simp add: clipped_def)
  then show ?thesis
    by (intro exI [of _ ?hp']) (simp only: round_and_clip_image_eq new, simp)
qed

theorem round_and_clip_image_rounds_witness:
  "(1 :: nat) < length (list_objs (one_image 1 3 [PFloat 300.2, PFloat 2.5, PFloat (- 0.7)]) 1) \<and>
   (\<exists>hp'. round_and_clip_image (one_image 1 3 [PFloat 300.2, PFloat 2.5, PFloat (- 0.7)]) 0 = (Inr 0, hp') \<and>
      list_objs hp' (pixels (dict_objs hp' 0)) ! 1 = PInt 2)"
proof -
  let ?H = "one_image 1 3 [PFloat 300.2, PFloat 2.5, PFloat (- 0.7)]"
  have k: "(1 :: nat) < length (list_objs ?H (pixels (dict_objs ?H 0)))"
    by (simp add: one_image_def)
  from round_and_clip_image_rounds [of ?H 0] obtain hp' where
    r: "round_and_clip_image ?H 0 = (Inr 0, hp')" and
    px: "\<forall>k < length (list_objs ?H (pixels (dict_objs ?H 0))).
        \<exists>r. (\<bar>to_real (list_objs ?H (pixels (dict_objs ?H 0)) ! k) - of_int r\<bar> < 1 / 2 \<or>
             (\<bar>to_real (list_objs ?H (pixels (dict_objs ?H 0)) ! k) - of_int r\<bar> = 1 / 2 \<and> even r)) \<and>
            list_objs hp' (pixels (dict_objs hp' 0)) ! k
              = PInt (if r < 0 then 0 else if 255 < r then 255 else r)"
    by blast
  from px k obtain r where
    near: "\<bar>to_real (list_objs ?H (pixels (dict_objs ?H 0)) ! 1) - of_int r\<bar> < 1 / 2 \<or>
             (\<bar>to_real (list_objs ?H (pixels (dict_objs ?H 0)) ! 1) - of_int r\<bar> = 1 / 2 \<and> even r)"
    and out: "list_objs hp' (pixels (dict_objs hp' 0)) ! 1
              = PInt (if r < 0 then 0 else if 255 < r then 255 else r)"
    by blast
  have "\<bar>(5 / 2 :: real) - of_int 2\<bar> < 1 / 2 \<or> (\<bar>(5 / 2 :: real) - of_int 2\<bar> = 1 / 2 \<and> even (2 :: int))"
    by simp
  moreover from near have "\<bar>(5 / 2 :: real) - of_int r\<bar> < 1 / 2 \<or> (\<bar>(5 / 2 :: real) - of_int r\<bar> = 1 / 2 \<and> even r)"
    by (simp add: one_image_def)
  ultimately have "r = 2"
    by (rule nearest_unique)
  with out r k show ?thesis
    by (simp add: one_image_def)
qed

lemma preserves_refl: "preserves hp hp"
  by (simp add: preserves_def)

lemma preserves_trans: "preserves a b \<Longrightarrow> preserves b c \<Longrightarrow> preserves a c"
  by (auto simp: preserves_def)

lemma preserves_with_result: "preserves hp (with_result hp img vs)"
  by (simp add: preserves_def with_result_def)

lemma preserves_new_list: "preserves hp (snd (new_list vs hp))"
  by (simp add: preserves_def new_list_def)

lemma preserves_new_dict: "preserves hp (snd (new_dict d hp))"
  by (simp add: preserves_def new_dict_def)

lemma preserves_set_pixels_key:
  "fresh hp \<le> d \<Longrightarrow> preserves hp hp1 \<Longrightarrow> preserves hp (set_pixels_key hp1 d l)"
  by (auto simp: preserves_def set_pixels_key_def)

lemma preserves_round_and_clip:
  "fresh hp \<le> pixels (dict_objs hp1 r) \<Longrightarrow> preserves hp hp1 \<Longrightarrow>
     preserves hp (snd (round_and_clip_image hp1 r))"
  by (auto simp: preserves_def round_and_clip_image_eq)

lemma preserves_valid:
  assumes "valid_image hp img" "preserves hp hp'"
  shows "valid_image hp' img" and "unchanged hp img hp'"
  using assms by (auto simp: valid_image_def preserves_def unchanged_def)

lemma clipped_byte: "is_byte (clipped v)"
  by (simp add: clipped_def)

lemma round_and_clip_bytes:
  "byte_pixels (snd (round_and_clip_image hp r)) r"
  by (simp add: round_and_clip_image_eq byte_pixels_def list_all_iff clipped_byte)

lemma round_and_clip_fst: "fst (round_and_clip_image hp r) = Inr r"
  by (simp add: round_and_clip_image_eq)

lemma apply_per_pixel_valid:
  assumes "valid_image hp img"
  shows "apply_per_pixel hp img func =
           (Inr (Suc (fresh hp)),
            with_result hp img
              (concat (map (\<lambda>x. map (\<lambda>y. func (pixel_at hp img x y))
                                     (py_range (width (dict_objs hp img))))
                           (py_range (height (dict_objs hp img))))))"
proof -
  let ?body = "\<lambda>x y hpy.
     case get_pixel hpy img x y of
       Inl e \<Rightarrow> (Inl e, hpy)
     | Inr color \<Rightarrow> (Inr (), set_pixel hpy (Suc (fresh hp)) (func color))"
  have "?body x y (with_result hp img vs)
          = (Inr (), with_result hp img (vs @ [func (pixel_at hp img x y)]))"
    if "0 \<le> x" "x < height (dict_objs hp img)" "0 \<le> y" "y < width (dict_objs hp img)"
    for x y vs
  proof -
    have "get_pixel (with_result hp img vs) img x y = Inr (pixel_at (with_result hp img vs) img x y)"
      by (rule get_pixel_pixel_at) (use that with_result_old [OF assms] in simp_all)
    then show ?thesis
      by (simp add: pixel_at_with_result [OF assms] set_pixel_with_result)
  qed
  note loops = pixel_loops [OF assms, of ?body "\<lambda>x y. func (pixel_at hp img x y)", OF this]
  show ?thesis
    unfolding apply_per_pixel_def
    apply (subst alloc_result(1))
    apply (simp only: Let_def prod.case alloc_result(2-) with_result_old(1) [OF assms] loops
        sum.case)
    done
qed

lemma blurred_zero: "blurred hp img 0 correct = (Inl ZeroDivisionError, hp)"
  by (simp add: blurred_def get_blur_kernel_def)

lemma blurred_valid:
  assumes "valid_image hp img" "n \<noteq> 0"
  shows "blurred hp img n False =
           (Inr (Suc (fresh hp)),
            with_result hp img (correlated_pixels hp img
              (replicate (nat (n ^ 2)) (PFloat (1 / of_int (n ^ 2))))))"
    and "blurred hp img n True =
           (Inr (Suc (fresh hp)),
            with_result hp img (map clipped (correlated_pixels hp img
              (replicate (nat (n ^ 2)) (PFloat (1 / of_int (n ^ 2)))))))"
  using assms(2)
  by (simp_all add: blurred_def get_blur_kernel_def correlate_valid [OF assms(1)]
      round_and_clip_with_result)

lemma sharpened_zero:
  "sharpened hp img 0 = (Inl ZeroDivisionError, with_result hp img [])"
  unfolding sharpened_def
  apply (subst alloc_result(1))
  apply (simp only: Let_def prod.case alloc_result(2-) blurred_zero sum.case)
  done

lemma sharpened_valid:
  assumes "valid_image hp img" "n \<noteq> 0"
  shows "\<exists>hp0. preserves hp hp0 \<and> fresh hp \<le> pixels (dict_objs hp0 (Suc (fresh hp))) \<and>
           sharpened hp img n = round_and_clip_image hp0 (Suc (fresh hp))"
proof -
  let ?hp2 = "with_result hp img []"
  let ?K = "replicate (nat (n ^ 2)) (PFloat (1 / of_int (n ^ 2)))"
  let ?hp3 = "with_result ?hp2 img (correlated_pixels ?hp2 img ?K)"
  let ?vs = "map (\<lambda>(x, y). py_sub (py_mul (PInt 2) x) y)
               (zip (list_objs ?hp3 (pixels (dict_objs ?hp2 img)))
                    (list_objs ?hp3 (pixels (dict_objs ?hp3 (Suc (fresh ?hp2))))))"
  let ?hp0 = "set_pixels_key (snd (new_list ?vs ?hp3)) (Suc (fresh hp)) (fresh ?hp3)"
  have v2: "valid_image ?hp2 img"
    by (rule with_result_old(3) [OF assms(1)])
  have b: "blurred ?hp2 img n False = (Inr (Suc (fresh ?hp2)), ?hp3)"
    by (rule blurred_valid(1) [OF v2 assms(2)])
  have nl: "new_list ?vs ?hp3 = (fresh ?hp3, snd (new_list ?vs ?hp3))"
    by (simp add: new_list_def)
  have eq: "sharpened hp img n = round_and_clip_image ?hp0 (Suc (fresh hp))"
    unfolding sharpened_def
    apply (subst alloc_result(1))
    apply (simp only: Let_def prod.case alloc_result(2-) b sum.case)
    apply (subst nl)
    apply (simp only: prod.case)
    done
  have "preserves hp ?hp2" by (rule preserves_with_result)
  moreover have "preserves ?hp2 ?hp3" by (rule preserves_with_result)
  moreover have "preserves ?hp3 (snd (new_list ?vs ?hp3))" by (rule preserves_new_list)
  ultimately have "preserves hp (snd (new_list ?vs ?hp3))"
    by (blast intro: preserves_trans)
  then have p: "preserves hp ?hp0"
    by (intro preserves_set_pixels_key) simp_all
  have "fresh hp \<le> pixels (dict_objs ?hp0 (Suc (fresh hp)))"
    by (simp add: set_pixels_key_def with_result_def)
  with p eq show ?thesis by blast
qed

lemma edges_valid:
  assumes "valid_image hp i"
  shows "\<exists>hp0. preserves hp hp0 \<and> fresh hp \<le> pixels (dict_objs hp0 (fresh hp)) \<and>
           edges hp i = round_and_clip_image hp0 (fresh hp)"
proof -
  let ?hp1 = "snd (new_dict (dict_objs hp i) hp)"
  let ?hp2 = "with_result ?hp1 i (correlated_pixels ?hp1 i Kx)"
  let ?hp3 = "with_result ?hp2 i (correlated_pixels ?hp2 i Ky)"
  let ?vs = "map (\<lambda>(x, y). py_pow_half (py_add (py_pow2 x) (py_pow2 y)))
               (zip (list_objs ?hp3 (pixels (dict_objs ?hp3 (Suc (fresh ?hp1)))))
                    (list_objs ?hp3 (pixels (dict_objs ?hp3 (Suc (fresh ?hp2))))))"
  let ?hp0 = "set_pixels_key (snd (new_list ?vs ?hp3)) (fresh hp) (fresh ?hp3)"
  have p1: "preserves hp ?hp1" by (rule preserves_new_dict)
  have v1: "valid_image ?hp1 i" by (rule preserves_valid(1) [OF assms p1])
  have p2: "preserves ?hp1 ?hp2" by (rule preserves_with_result)
  have v2: "valid_image ?hp2 i" by (rule preserves_valid(1) [OF v1 p2])
  have nd: "new_dict (dict_objs hp i) hp = (fresh hp, ?hp1)"
    by (simp add: new_dict_def)
  have c1: "correlate ?hp1 i Kx = (Inr (Suc (fresh ?hp1)), ?hp2)"
    by (rule correlate_valid [OF v1])
  have c2: "correlate ?hp2 i Ky = (Inr (Suc (fresh ?hp2)), ?hp3)"
    by (rule correlate_valid [OF v2])
  have nl: "new_list ?vs ?hp3 = (fresh ?hp3, snd (new_list ?vs ?hp3))"
    by (simp add: new_list_def)
  have eq: "edges hp i = round_and_clip_image ?hp0 (fresh hp)"
    unfolding edges_def
    apply (subst nd)
    apply (simp only: Let_def prod.case c1 c2 sum.case)
    apply (subst nl)
    apply (simp only: prod.case)
    done
  have "preserves ?hp2 ?hp3" by (rule preserves_with_result)
  moreover have "preserves ?hp3 (snd (new_list ?vs ?hp3))" by (rule preserves_new_list)
  ultimately have "preserves hp (snd (new_list ?vs ?hp3))"
    using p1 p2 by (blast intro: preserves_trans)
  then have p: "preserves hp ?hp0"
    by (intro preserves_set_pixels_key) simp_all
  have "fresh hp \<le> pixels (dict_objs ?hp0 (fresh hp))"
    by (simp add: set_pixels_key_def with_result_def new_dict_def)
  with p eq show ?thesis by blast
qed

lemma pixel_at_mem:
  assumes "valid_image hp img" "1 \<le> height (dict_objs hp img)" "1 \<le> width (dict_objs hp img)"
  shows "pixel_at hp img x y \<in> set (list_objs hp (pixels (dict_objs hp img)))"
proof -
  let ?h = "height (dict_objs hp img)" and ?w = "width (dict_objs hp img)"
  have "0 \<le> in_bound ?h x * ?w + in_bound ?w y \<and> in_bound ?h x * ?w + in_bound ?w y < ?h * ?w"
    using in_bound_range [OF assms(2), of x] in_bound_range [OF assms(3), of y]
    by (intro index_in_range) simp_all
  moreover have "int (length (list_objs hp (pixels (dict_objs hp img)))) = ?h * ?w"
    using assms(1) by (simp add: valid_image_def)
  ultimately have "nat (in_bound ?h x * ?w + in_bound ?w y) < length (list_objs hp (pixels (dict_objs hp img)))"
    by linarith
  then show ?thesis
    unfolding pixel_at_def by (rule nth_mem)
qed

lemma inverted_valid:
  assumes "valid_image hp img" "byte_pixels hp img"
  shows "\<exists>hp'. inverted hp img = (Inr (Suc (fresh hp)), hp') \<and> preserves hp hp' \<and>
           byte_pixels hp' (Suc (fresh hp))"
proof -
  let ?vs = "concat (map (\<lambda>x. map (\<lambda>y. py_sub (PInt 255) (pixel_at hp img x y))
                                     (py_range (width (dict_objs hp img))))
                           (py_range (height (dict_objs hp img))))"
  have "is_byte v" if "v \<in> set ?vs" for v
  proof -
    from that obtain x y where x: "0 \<le> x" "x < height (dict_objs hp img)"
      and y: "0 \<le> y" "y < width (dict_objs hp img)"
      and v: "v = py_sub (PInt 255) (pixel_at hp img x y)"
      by (auto simp: py_range_set)
    have "pixel_at hp img x y \<in> set (list_objs hp (pixels (dict_objs hp img)))"
      using x y by (intro pixel_at_mem assms(1)) simp_all
    with assms(2) have "is_byte (pixel_at hp img x y)"
      by (simp add: byte_pixels_def list_all_iff)
    then show ?thesis
      unfolding v by (cases "pixel_at hp img x y") simp_all
  qed
  then have "byte_pixels (with_result hp img ?vs) (Suc (fresh hp))"
    by (simp add: byte_pixels_def with_result_new list_all_iff)
  then show ?thesis
    unfolding inverted_def apply_per_pixel_valid [OF assms(1)]
    using preserves_with_result by blast
qed

lemma inverted_preserves:
  assumes "valid_image hp img"
  shows "preserves hp (snd (inverted hp img))"
  unfolding inverted_def apply_per_pixel_valid [OF assms]
  by (simp add: preserves_with_result)

lemma blurred_preserves:
  assumes "valid_image hp img"
  shows "preserves hp (snd (blurred hp img n True))"
proof (cases "n = 0")
  case True
  then show ?thesis by (simp add: blurred_zero preserves_refl)
next
  case False
  then show ?thesis
    by (simp add: blurred_valid(2) [OF assms] preserves_with_result)
qed

lemma sharpened_preserves:
  assumes "valid_image hp img"
  shows "preserves hp (snd (sharpened hp img n))"
proof (cases "n = 0")
  case True
  then show ?thesis by (simp add: sharpened_zero preserves_with_result)
next
  case False
  from sharpened_valid [OF assms False] show ?thesis
    by (auto intro: preserves_round_and_clip)
qed

lemma edges_preserves:
  assumes "valid_image hp img"
  shows "preserves hp (snd (edges hp img))"
  using edges_valid [OF assms] by (auto intro: preserves_round_and_clip)

text \<open>
  C6: each of the filters \<open>inverted\<close>, \<open>blurred\<close>, \<open>sharpened\<close> and \<open>edges\<close>, called on
  a well-formed image, leaves that image as it was: the same height, width and pixel
  sequence, whatever the kernel size and also when the call raises.
\<close>

theorem filters_leave_input_unchanged:
  assumes "valid_image hp img"
  shows "unchanged hp img (snd (inverted hp img)) \<and>
         unchanged hp img (snd (blurred hp img n True)) \<and>
         unchanged hp img (snd (sharpened hp img n)) \<and>
         unchanged hp img (snd (edges hp img))"
  using assms inverted_preserves blurred_preserves sharpened_preserves edges_preserves
  by (blast intro: preserves_valid(2))

theorem filters_leave_input_unchanged_witness:
  "valid_image (one_image 2 2 (map PInt [0, 255, 17, 200])) 0 \<and>
   dict_objs (snd (inverted (one_image 2 2 (map PInt [0, 255, 17, 200])) 0)) 0
     = \<lparr>height = 2, width = 2, pixels = 1\<rparr> \<and>
   list_objs (snd (inverted (one_image 2 2 (map PInt [0, 255, 17, 200])) 0)) 1
     = map PInt [0, 255, 17, 200] \<and>
   list_objs (snd (blurred (one_image 2 2 (map PInt [0, 255, 17, 200])) 0 3 True)) 1
     = map PInt [0, 255, 17, 200] \<and>
   list_objs (snd (sharpened (one_image 2 2 (map PInt [0, 255, 17, 200])) 0 3)) 1
     = map PInt [0, 255, 17, 200] \<and>
   list_objs (snd (edges (one_image 2 2 (map PInt [0, 255, 17, 200])) 0)) 1
     = map PInt [0, 255, 17, 200]"
proof -
  have v: "valid_image (one_image 2 2 (map PInt [0, 255, 17, 200])) 0"
    by (simp add: valid_image_def one_image_def)
  from filters_leave_input_unchanged [OF v, of 3] v show ?thesis
    by (simp add: unchanged_def one_image_def)
qed

text \<open>
  C7: on a well-formed image whose pixels are ints in \<open>[0, 255]\<close>, each of \<open>inverted\<close>,
  \<open>blurred\<close>, \<open>sharpened\<close> and \<open>edges\<close> returns an image whose pixels are ints in
  \<open>[0, 255]\<close>; \<open>blurred\<close> and \<open>sharpened\<close> do so for every kernel size but 0, where they
  raise \<open>ZeroDivisionError\<close> and return no image.
\<close>

theorem filters_return_bytes:
  assumes "valid_image hp img" and "byte_pixels hp img"
  shows "(\<exists>r hp'. inverted hp img = (Inr r, hp') \<and> byte_pixels hp' r) \<and>
         (n \<noteq> 0 \<longrightarrow> (\<exists>r hp'. blurred hp img n True = (Inr r, hp') \<and> byte_pixels hp' r)) \<and>
         (n \<noteq> 0 \<longrightarrow> (\<exists>r hp'. sharpened hp img n = (Inr r, hp') \<and> byte_pixels hp' r)) \<and>
         (\<exists>r hp'. edges hp img = (Inr r, hp') \<and> byte_pixels hp' r) \<and>
         fst (blurred hp img 0 True) = Inl ZeroDivisionError \<and>
         fst (sharpened hp img 0) = Inl ZeroDivisionError"
proof (intro conjI impI)
  show "\<exists>r hp'. inverted hp img = (Inr r, hp') \<and> byte_pixels hp' r"
    using inverted_valid [OF assms] by blast
next
  assume n: "n \<noteq> 0"
  have "byte_pixels (snd (blurred hp img n True)) (Suc (fresh hp))"
    using round_and_clip_bytes [of "with_result hp img (correlated_pixels hp img
              (replicate (nat (n ^ 2)) (PFloat (1 / of_int (n ^ 2)))))" "Suc (fresh hp)"]
    by (simp add: blurred_valid(2) [OF assms(1) n] round_and_clip_with_result)
  then show "\<exists>r hp'. blurred hp img n True = (Inr r, hp') \<and> byte_pixels hp' r"
    by (simp add: blurred_valid(2) [OF assms(1) n])
next
  assume n: "n \<noteq> 0"
  from sharpened_valid [OF assms(1) n] obtain hp0 where
    "sharpened hp img n = round_and_clip_image hp0 (Suc (fresh hp))" by blast
  then show "\<exists>r hp'. sharpened hp img n = (Inr r, hp') \<and> byte_pixels hp' r"
    using round_and_clip_bytes [of hp0 "Suc (fresh hp)"] round_and_clip_fst [of hp0 "Suc (fresh hp)"]
    by (metis prod.collapse)
next
  from edges_valid [OF assms(1)] obtain hp0 where
    "edges hp img = round_and_clip_image hp0 (fresh hp)" by blast
  then show "\<exists>r hp'. edges hp img = (Inr r, hp') \<and> byte_pixels hp' r"
    using round_and_clip_bytes [of hp0 "fresh hp"] round_and_clip_fst [of hp0 "fresh hp"]
    by (metis prod.collapse)
next
  show "fst (blurred hp img 0 True) = Inl ZeroDivisionError"
    by (simp add: blurred_zero)
next
  show "fst (sharpened hp img 0) = Inl ZeroDivisionError"
    by (simp add: sharpened_zero)
qed

theorem filters_return_bytes_witness:
  "valid_image (one_image 2 2 (map PInt [0, 255, 17, 200])) 0 \<and>
   byte_pixels (one_image 2 2 (map PInt [0, 255, 17, 200])) 0 \<and>
   (3 :: int) \<noteq> 0 \<and>
   (\<exists>r hp'. inverted (one_image 2 2 (map PInt [0, 255, 17, 200])) 0 = (Inr r, hp') \<and> byte_pixels hp' r) \<and>
   (\<exists>r hp'. blurred (one_image 2 2 (map PInt [0, 255, 17, 200])) 0 3 True = (Inr r, hp') \<and> byte_pixels hp' r) \<and>
   (\<exists>r hp'. sharpened (one_image 2 2 (map PInt [0, 255, 17, 200])) 0 3 = (Inr r, hp') \<and> byte_pixels hp' r) \<and>
   (\<exists>r hp'. edges (one_image 2 2 (map PInt [0, 255, 17, 200])) 0 = (Inr r, hp') \<and> byte_pixels hp' r)"
proof -
  have v: "valid_image (one_image 2 2 (map PInt [0, 255, 17, 200])) 0"
    by (simp add: valid_image_def one_image_def)
  have b: "byte_pixels (one_image 2 2 (map PInt [0, 255, 17, 200])) 0"
    by (simp add: byte_pixels_def one_image_def)
  have n: "(3 :: int) \<noteq> 0"
    by simp
  from filters_return_bytes [OF v b, of 3] v b n show ?thesis
    by blast
qed

lemma clipped_id_iff: "clipped v = v \<longleftrightarrow> is_byte v"
  by (cases v) (auto simp: clipped_def)

lemma map_clipped_id_iff: "map clipped ps = ps \<longleftrightarrow> list_all is_byte ps"
  by (induction ps) (simp_all add: clipped_id_iff)

text \<open>
  C4, as amended: \<open>round_and_clip_image\<close> allocates nothing and returns the image object it
  was given; height, width, the identity of the pixel list and every other list are as
  before, and the pixel list of the input is overwritten with the rounded and clamped
  values, so the input keeps its pixel sequence exactly when every pixel already is an int
  in \<open>[0, 255]\<close>.
\<close>

theorem round_and_clip_image_in_place:
  "\<exists>hp'. round_and_clip_image hp img = (Inr img, hp') \<and>
     fresh hp' = fresh hp \<and> dict_objs hp' = dict_objs hp \<and>
     (\<forall>l. l \<noteq> pixels (dict_objs hp img) \<longrightarrow> list_objs hp' l = list_objs hp l) \<and>
     list_objs hp' (pixels (dict_objs hp img))
       = map clipped (list_objs hp (pixels (dict_objs hp img))) \<and>
     (list_objs hp' (pixels (dict_objs hp img)) = list_objs hp (pixels (dict_objs hp img))
        \<longleftrightarrow> byte_pixels hp img)"
  by (simp add: round_and_clip_image_eq map_clipped_id_iff byte_pixels_def)

theorem round_and_clip_image_in_place_witness:
  "(0 :: nat) \<noteq> pixels (dict_objs (one_image 1 2 [PFloat 1.5, PInt (- 4)]) 0) \<and>
   (\<exists>hp'. round_and_clip_image (one_image 1 2 [PFloat 1.5, PInt (- 4)]) 0 = (Inr 0, hp') \<and>
      list_objs hp' 0 = list_objs (one_image 1 2 [PFloat 1.5, PInt (- 4)]) 0 \<and>
      list_objs hp' 1 = [PInt 2, PInt 0])"
proof -
  let ?H = "one_image 1 2 [PFloat 1.5, PInt (- 4)]"
  have ne: "(0 :: nat) \<noteq> pixels (dict_objs ?H 0)"
    by (simp add: one_image_def)
  from round_and_clip_image_in_place [of ?H 0] obtain hp' where
    r: "round_and_clip_image ?H 0 = (Inr 0, hp')" and
    other: "\<forall>l. l \<noteq> pixels (dict_objs ?H 0) \<longrightarrow> list_objs hp' l = list_objs ?H l" and
    own: "list_objs hp' (pixels (dict_objs ?H 0)) = map clipped (list_objs ?H (pixels (dict_objs ?H 0)))"
    by blast
  from other ne have "list_objs hp' 0 = list_objs ?H 0"
    by blast
  moreover from own have "list_objs hp' 1 = [PInt 2, PInt 0]"
    by (simp add: one_image_def clipped_def round_half_even_def)
  ultimately show ?thesis
    using r ne by blast
qed

text \<open>
  C4 as stated fails: on the 1x1 image with pixel 300 the call returns the input object,
  allocates nothing, and the pixel list of the input holds 255 afterwards.
\<close>

theorem round_and_clip_image_overwrites_input:
  "fst (round_and_clip_image (one_image 1 1 [PInt 300]) 0) = Inr 0 \<and>
   fresh (snd (round_and_clip_image (one_image 1 1 [PInt 300]) 0)) = fresh (one_image 1 1 [PInt 300]) \<and>
   list_objs (one_image 1 1 [PInt 300]) (pixels (dict_objs (one_image 1 1 [PInt 300]) 0)) = [PInt 300] \<and>
   list_objs (snd (round_and_clip_image (one_image 1 1 [PInt 300]) 0))
       (pixels (dict_objs (one_image 1 1 [PInt 300]) 0)) = [PInt 255]"
  by (simp add: round_and_clip_image_def enumerate_pixels.simps store_pixel_def py_store_def
      one_image_def clipped_def)

lemma py_index_take:
  assumes "0 \<le> j" "j < int k" "k \<le> length xs"
  shows "py_index (take k xs) j = py_index xs j"
  using assms by (simp add: py_index_def)

lemma weigh_with_take:
  "weigh_with add mul hp img (take (isqrt (length kern) * isqrt (length kern)) kern)
       (int (isqrt (length kern))) nl x y s
     = weigh_with add mul hp img kern (int (isqrt (length kern))) nl x y s"
proof -
  let ?m = "isqrt (length kern)"
  have le: "?m * ?m \<le> length kern"
    using isqrt_bounds [of "length kern"] by simp
  have idx: "py_index (take (?m * ?m) kern) (h * int ?m + w) = py_index kern (h * int ?m + w)"
    if "h \<in> set (py_range (int ?m))" "w \<in> set (py_range (int ?m))" for h w
  proof -
    have "0 \<le> h * int ?m + w \<and> h * int ?m + w < int ?m * int ?m"
      using that by (intro index_in_range) (simp_all add: py_range_set)
    then show ?thesis
      using le by (intro py_index_take) simp_all
  qed
  show ?thesis
    unfolding weigh_with_def
    by (intro for_each_cong) (simp add: idx)
qed

text \<open>
  C5, as amended: \<open>correlate\<close> does not check the length of the kernel.  For every kernel,
  with \<open>n\<close> the integer square root of its length, a call has the outcome of the call on
  the first \<open>n * n\<close> weights, be it the image returned or the error raised, and the store
  it leaves is the same: the weights beyond the first \<open>n * n\<close> are never read.  This holds
  whatever the arithmetic.
\<close>

theorem correlate_ignores_excess_weights:
  "correlate_with add mul hp img kern =
     correlate_with add mul hp img (take (isqrt (length kern) * isqrt (length kern)) kern)"
proof -
  have "isqrt (length (take (isqrt (length kern) * isqrt (length kern)) kern)) = isqrt (length kern)"
    using isqrt_bounds [of "length kern"] by (simp add: min_absorb2 isqrt_square)
  then show ?thesis
    by (simp add: correlate_with_def weigh_with_take)
qed

text \<open>
  C5 as stated fails: with a kernel of length 2 on the 1x1 image with pixel 7,
  \<open>correlate\<close> raises nothing and returns the pixel 7.0, computed from the first weight.
\<close>

theorem correlate_truncates_kernel:
  "fst (correlate (one_image 1 1 [PInt 7]) 0 [PInt 1, PInt 100]) = Inr 3 \<and>
   list_objs (snd (correlate (one_image 1 1 [PInt 7]) 0 [PInt 1, PInt 100])) 2 = [PFloat 7]"
proof -
  have v: "valid_image (one_image 1 1 [PInt 7]) 0"
    by (simp add: valid_image_def one_image_def)
  show ?thesis
    unfolding correlate_valid [OF v]
    by (simp add: with_result_def correlated_pixels_def window_sum_def pixel_at_def
        py_range_def py_int_half_def in_bound_def one_image_def Let_def)
qed

theorem correlate_ignores_excess_weights_witness:
  "correlate_with add_checked mul_checked (one_image 1 1 [PInt 7]) 0 [PInt 1, PInt 100]
     = correlate_with add_checked mul_checked (one_image 1 1 [PInt 7]) 0 [PInt 1]"
  using correlate_ignores_excess_weights
          [of add_checked mul_checked "one_image 1 1 [PInt 7]" 0 "[PInt 1, PInt 100]"]
  by (simp add: Let_def)

lemma isqrt_9: "isqrt 9 = 3"
  using isqrt_square [of 3] by simp

lemma isqrt_25: "isqrt 25 = 5"
  using isqrt_square [of 5] by simp

lemma py_range_3: "py_range 3 = [0, 1, 2]"
  by (simp add: py_range_def eval_nat_numeral)

lemma py_range_5: "py_range 5 = [0, 1, 2, 3, 4]"
  by (simp add: py_range_def eval_nat_numeral)

lemma centered_pixel_nth:
  "k < 121 \<Longrightarrow> centered_pixel ! k = (if k = 60 then PInt 255 else PInt 0)"
  by (auto simp: centered_pixel_def nth_append)

lemma index_60:
  fixes r c :: int
  assumes "0 \<le> r" "r < 11" "0 \<le> c" "c < 11"
  shows "nat (r * 11 + c) = 60 \<longleftrightarrow> r = 5 \<and> c = 5"
proof
  assume "nat (r * 11 + c) = 60"
  then have e: "r * 11 + c = 60"
    using assms by linarith
  then have "r = 5"
    using assms by linarith
  with e show "r = 5 \<and> c = 5"
    by simp
next
  assume "r = 5 \<and> c = 5"
  then show "nat (r * 11 + c) = 60"
    by simp
qed

lemma in_bound_5: "in_bound 11 x = 5 \<longleftrightarrow> x = 5"
  by (simp add: in_bound_def)

lemma centered_pixel_at:
  assumes "height (dict_objs hp img) = 11" "width (dict_objs hp img) = 11"
    and "list_objs hp (pixels (dict_objs hp img)) = centered_pixel"
  shows "pixel_at hp img x y = (if x = 5 \<and> y = 5 then PInt 255 else PInt 0)"
proof -
  let ?r = "in_bound 11 x" and ?c = "in_bound 11 y"
  have r: "0 \<le> ?r" "?r < 11" and c: "0 \<le> ?c" "?c < 11"
    using in_bound_range [of 11 x] in_bound_range [of 11 y] by simp_all
  then have k: "nat (?r * 11 + ?c) < 121"
    by linarith
  have "pixel_at hp img x y = centered_pixel ! nat (?r * 11 + ?c)"
    by (simp add: pixel_at_def assms)
  also have "\<dots> = (if nat (?r * 11 + ?c) = 60 then PInt 255 else PInt 0)"
    by (rule centered_pixel_nth [OF k])
  also have "\<dots> = (if x = 5 \<and> y = 5 then PInt 255 else PInt 0)"
    by (simp only: index_60 [OF r c] in_bound_5)
  finally show ?thesis .
qed

lemma cases3:
  fixes x :: int
  obtains "x < 4" | "x = 4" | "x = 5" | "x = 6" | "6 < x"
  by linarith

lemma blur3_centered:
  assumes "height (dict_objs hp img) = 11" "width (dict_objs hp img) = 11"
    and "list_objs hp (pixels (dict_objs hp img)) = centered_pixel"
  shows "window_sum hp img (replicate 9 (PFloat (1 / 9))) x y
           = (if 4 \<le> x \<and> x \<le> 6 \<and> 4 \<le> y \<and> y \<le> 6 then 255 / 9 else 0)"
proof -
  note P = centered_pixel_at [OF assms]
  note defs = window_sum_def isqrt_9 py_int_half_def py_range_3
  show ?thesis
  proof (cases rule: cases3 [of x])
    case 1
    then show ?thesis
      by (simp add: defs P split del: if_split)
  next
    case 2
    then show ?thesis
      by (cases rule: cases3 [of y]) (simp_all add: defs P split del: if_split)
  next
    case 3
    then show ?thesis
      by (cases rule: cases3 [of y]) (simp_all add: defs P split del: if_split)
  next
    case 4
    then show ?thesis
      by (cases rule: cases3 [of y]) (simp_all add: defs P split del: if_split)
  next
    case 5
    then show ?thesis
      by (simp add: defs P split del: if_split)
  qed
qed

lemma cases5:
  fixes x :: int
  obtains "x < 3" | "x = 3" | "x = 4" | "x = 5" | "x = 6" | "x = 7" | "7 < x"
  by linarith

lemma blur5_centered:
  assumes "height (dict_objs hp img) = 11" "width (dict_objs hp img) = 11"
    and "list_objs hp (pixels (dict_objs hp img)) = centered_pixel"
  shows "window_sum hp img (replicate 25 (PFloat (1 / 25))) x y
           = (if 3 \<le> x \<and> x \<le> 7 \<and> 3 \<le> y \<and> y \<le> 7 then 255 / 25 else 0)"
proof -
  note P = centered_pixel_at [OF assms]
  note defs = window_sum_def isqrt_25 py_int_half_def py_range_5
  show ?thesis
  proof (cases rule: cases5 [of x])
    case 1
    then show ?thesis
      by (simp add: defs P split del: if_split)
  next
    case 2
    then show ?thesis
      by (cases rule: cases5 [of y]) (simp_all add: defs P split del: if_split)
  next
    case 3
    then show ?thesis
      by (cases rule: cases5 [of y]) (simp_all add: defs P split del: if_split)
  next
    case 4
    then show ?thesis
      by (cases rule: cases5 [of y]) (simp_all add: defs P split del: if_split)
  next
    case 5
    then show ?thesis
      by (cases rule: cases5 [of y]) (simp_all add: defs P split del: if_split)
  next
    case 6
    then show ?thesis
      by (cases rule: cases5 [of y]) (simp_all add: defs P split del: if_split)
  next
    case 7
    then show ?thesis
      by (simp add: defs P split del: if_split)
  qed
qed

lemma clipped_if_9:
  "clipped (PFloat (if c then 255 / 9 else 0))
     = (if c then PInt (py_round (PFloat (255 / 9))) else PInt 0)"
  by (cases c) (simp_all add: clipped_def round_half_even_def)

lemma clipped_if_25:
  "clipped (PFloat (if c then 255 / 25 else 0))
     = (if c then PInt (py_round (PFloat (255 / 25))) else PInt 0)"
  by (cases c) (simp_all add: clipped_def round_half_even_def)

lemma round_255_9: "py_round (PFloat (255 / 9)) = 28"
  by (simp add: round_half_even_def)

lemma round_255_25: "py_round (PFloat (255 / 25)) = 10"
  by (simp add: round_half_even_def)

text \<open>
  C9: on the 11x11 image whose pixel at row 5, column 5 is 255 and whose other pixels are 0,
  \<open>blurred\<close> with kernel size 3 gives \<open>round(255/9)\<close> on rows and columns 4 to 6 and 0
  elsewhere, and with kernel size 5 gives \<open>round(255/25)\<close> on rows and columns 3 to 7 and
  0 elsewhere.
\<close>

theorem blurred_centered_pixel:
  assumes "valid_image hp img"
    and "height (dict_objs hp img) = 11" and "width (dict_objs hp img) = 11"
    and "list_objs hp (pixels (dict_objs hp img)) = centered_pixel"
  shows "(\<exists>r hp'. blurred hp img 3 True = (Inr r, hp') \<and>
            height (dict_objs hp' r) = 11 \<and> width (dict_objs hp' r) = 11 \<and>
            list_objs hp' (pixels (dict_objs hp' r))
              = block 4 6 (PInt (py_round (PFloat (255 / 9))))) \<and>
         (\<exists>r hp'. blurred hp img 5 True = (Inr r, hp') \<and>
            height (dict_objs hp' r) = 11 \<and> width (dict_objs hp' r) = 11 \<and>
            list_objs hp' (pixels (dict_objs hp' r))
              = block 3 7 (PInt (py_round (PFloat (255 / 25)))))"
proof -
  have k3: "replicate (nat (3\<^sup>2)) (PFloat (1 / of_int (3\<^sup>2))) = replicate 9 (PFloat (1 / 9))"
    by simp
  have k5: "replicate (nat (5\<^sup>2)) (PFloat (1 / of_int (5\<^sup>2))) = replicate 25 (PFloat (1 / 25))"
    by simp
  have b3: "map clipped (correlated_pixels hp img (replicate 9 (PFloat (1 / 9))))
              = block 4 6 (PInt (py_round (PFloat (255 / 9))))"
    unfolding correlated_pixels_def block_def assms(2,3) blur3_centered [OF assms(2-4)]
    by (simp only: map_concat map_map comp_def clipped_if_9)
  have b5: "map clipped (correlated_pixels hp img (replicate 25 (PFloat (1 / 25))))
              = block 3 7 (PInt (py_round (PFloat (255 / 25))))"
    unfolding correlated_pixels_def block_def assms(2,3) blur5_centered [OF assms(2-4)]
    by (simp only: map_concat map_map comp_def clipped_if_25)
  have "blurred hp img 3 True =
          (Inr (Suc (fresh hp)), with_result hp img (block 4 6 (PInt (py_round (PFloat (255 / 9))))))"
    using blurred_valid(2) [OF assms(1), of 3] unfolding k3 b3 by simp
  moreover have "blurred hp img 5 True =
          (Inr (Suc (fresh hp)), with_result hp img (block 3 7 (PInt (py_round (PFloat (255 / 25))))))"
    using blurred_valid(2) [OF assms(1), of 5] unfolding k5 b5 by simp
  ultimately show ?thesis
    by (simp add: with_result_new assms(2,3))
qed

theorem blurred_centered_pixel_witness:
  "valid_image (one_image 11 11 centered_pixel) 0 \<and>
   height (dict_objs (one_image 11 11 centered_pixel) 0) = 11 \<and>
   width (dict_objs (one_image 11 11 centered_pixel) 0) = 11 \<and>
   list_objs (one_image 11 11 centered_pixel) (pixels (dict_objs (one_image 11 11 centered_pixel) 0))
     = centered_pixel \<and>
   (\<exists>r hp'. blurred (one_image 11 11 centered_pixel) 0 3 True = (Inr r, hp') \<and>
      list_objs hp' (pixels (dict_objs hp' r)) = block 4 6 (PInt 28)) \<and>
   (\<exists>r hp'. blurred (one_image 11 11 centered_pixel) 0 5 True = (Inr r, hp') \<and>
      list_objs hp' (pixels (dict_objs hp' r)) = block 3 7 (PInt 10))"
proof -
  let ?H = "one_image 11 11 centered_pixel"
  have v: "valid_image ?H 0"
    by (simp add: valid_image_def one_image_def centered_pixel_def)
  have h: "height (dict_objs ?H 0) = 11" and w: "width (dict_objs ?H 0) = 11"
    and l: "list_objs ?H (pixels (dict_objs ?H 0)) = centered_pixel"
    by (simp_all add: one_image_def)
  from blurred_centered_pixel [OF v h w l] v h w l show ?thesis
    unfolding round_255_9 round_255_25 by blast
qed

lemma isqrt_1: "isqrt (Suc 0) = 1"
  by (simp add: Let_def)

lemma window_sum_unit:
  "window_sum hp img [PFloat 1] x y = to_real (pixel_at hp img x y)"
  by (simp add: window_sum_def isqrt_1 py_int_half_def py_range_def)

lemma pixel_at_inside:
  assumes "x < nat (height (dict_objs hp img))" "y < nat (width (dict_objs hp img))"
  shows "pixel_at hp img (int x) (int y)
           = list_objs hp (pixels (dict_objs hp img)) ! (x * nat (width (dict_objs hp img)) + y)"
proof -
  have "nat (int x * width (dict_objs hp img) + int y) = x * nat (width (dict_objs hp img)) + y"
    using assms by (simp add: nat_add_distrib nat_mult_distrib)
  moreover have "in_bound (height (dict_objs hp img)) (int x) = int x"
    "in_bound (width (dict_objs hp img)) (int y) = int y"
    using assms by (simp_all add: in_bound_def)
  ultimately show ?thesis
    by (simp add: pixel_at_def)
qed

lemma correlated_pixels_unit:
  assumes "valid_image hp img"
  shows "correlated_pixels hp img [PFloat 1]
           = map (\<lambda>v. PFloat (to_real v)) (list_objs hp (pixels (dict_objs hp img)))"
proof -
  let ?ps = "list_objs hp (pixels (dict_objs hp img))"
  let ?h = "nat (height (dict_objs hp img))" and ?w = "nat (width (dict_objs hp img))"
  have "int (length ?ps) = int (?h * ?w)"
    using assms by (simp add: valid_image_def)
  then have len: "length ?ps = ?h * ?w"
    by (simp only: of_nat_eq_iff)
  have "correlated_pixels hp img [PFloat 1] =
          concat (map (\<lambda>x. map (\<lambda>y. PFloat (to_real (?ps ! (x * ?w + y)))) [0..<?w]) [0..<?h])"
    unfolding correlated_pixels_rows
    by (intro arg_cong [where f = concat] map_cong refl)
      (simp add: window_sum_unit pixel_at_inside)
  also have "\<dots> = map (\<lambda>v. PFloat (to_real v)) ?ps"
    by (rule rows_of_list [OF len])
  finally show ?thesis .
qed

lemma clipped_to_real: "clipped (PFloat (to_real v)) = clipped v"
  by (cases v) (simp_all add: clipped_def round_half_even_def)

text \<open>
  C8: on a well-formed image whose pixels are ints in \<open>[0, 255]\<close>, \<open>blurred\<close> with kernel
  size 1 returns an image with the height, width and pixels that \<open>round_and_clip_image\<close>
  gives on the input, and these are the pixels of the input.
\<close>

theorem blur_one_is_clip:
  assumes "valid_image hp img" and "byte_pixels hp img"
  shows "\<exists>r hp' hp''.
           blurred hp img 1 True = (Inr r, hp') \<and>
           round_and_clip_image hp img = (Inr img, hp'') \<and>
           height (dict_objs hp' r) = height (dict_objs hp'' img) \<and>
           width (dict_objs hp' r) = width (dict_objs hp'' img) \<and>
           list_objs hp' (pixels (dict_objs hp' r)) = list_objs hp'' (pixels (dict_objs hp'' img)) \<and>
           list_objs hp' (pixels (dict_objs hp' r)) = list_objs hp (pixels (dict_objs hp img))"
proof -
  let ?ps = "list_objs hp (pixels (dict_objs hp img))"
  have "map clipped (correlated_pixels hp img [PFloat 1]) = map clipped ?ps"
    by (simp add: correlated_pixels_unit [OF assms(1)] comp_def clipped_to_real)
  moreover have "map clipped ?ps = ?ps"
    using assms(2) by (simp add: map_clipped_id_iff byte_pixels_def)
  ultimately have "blurred hp img 1 True = (Inr (Suc (fresh hp)), with_result hp img ?ps)"
    using blurred_valid(2) [OF assms(1), of 1] by simp
  moreover have "round_and_clip_image hp img =
      (Inr img, hp\<lparr>list_objs := (list_objs hp)(pixels (dict_objs hp img) := ?ps)\<rparr>)"
    using \<open>map clipped ?ps = ?ps\<close> by (simp add: round_and_clip_image_eq)
  ultimately show ?thesis
    by (simp add: with_result_new)
qed

theorem blur_one_is_clip_witness:
  "valid_image (one_image 2 2 (map PInt [0, 255, 17, 200])) 0 \<and>
   byte_pixels (one_image 2 2 (map PInt [0, 255, 17, 200])) 0 \<and>
   (\<exists>r hp' hp''.
      blurred (one_image 2 2 (map PInt [0, 255, 17, 200])) 0 1 True = (Inr r, hp') \<and>
      round_and_clip_image (one_image 2 2 (map PInt [0, 255, 17, 200])) 0 = (Inr 0, hp'') \<and>
      list_objs hp' (pixels (dict_objs hp' r)) = list_objs hp'' (pixels (dict_objs hp'' 0)) \<and>
      list_objs hp' (pixels (dict_objs hp' r)) = map PInt [0, 255, 17, 200])"
proof -
  let ?H = "one_image 2 2 (map PInt [0, 255, 17, 200])"
  have v: "valid_image ?H 0"
    by (simp add: valid_image_def one_image_def)
  have b: "byte_pixels ?H 0"
    by (simp add: byte_pixels_def one_image_def)
  have l: "list_objs ?H (pixels (dict_objs ?H 0)) = map PInt [0, 255, 17, 200]"
    by (simp add: one_image_def)
  from blur_one_is_clip [OF v b] v b show ?thesis
    unfolding l by blast
qed

end
